theory Spec2Isabelle
  imports Complex_Main
begin

section \<open>Errors and parameter checks\<close>

text \<open>
  The exceptions the scripts can raise. \<open>AssertionError\<close> is what the \<open>assert\<close> of
  \<open>LUT_1D_Cartesian.py\<close> raises, \<open>ValueError\<close> what both Cartesian files raise for an
  unknown density shape (and \<open>cartesian1Dtrajectory.py\<close> for a bad integer),
  \<open>IndexError\<close> an index out of range, \<open>ZeroDivisionError\<close> a division of Python
  numbers by zero.
\<close>

datatype error = AssertionError | ValueError | IndexError | ZeroDivisionError

definition mustBePosEvenInt :: "int \<Rightarrow> error + unit" where
  "mustBePosEvenInt x = (if x > 0 \<and> x mod 2 = 0 then Inr () else Inl AssertionError)"

definition must_be_pos_even_int :: "int \<Rightarrow> error + unit" where
  "must_be_pos_even_int x = (if x > 0 \<and> x mod 2 = 0 then Inr () else Inl ValueError)"

section \<open>Python and numpy operations\<close>

text \<open>\<open>np.arange(a, b)\<close> on integers.\<close>

definition arange :: "int \<Rightarrow> int \<Rightarrow> int list" where
  "arange a b = [a..b - 1]"

text \<open>\<open>range(start, stop, step)\<close> for a step other than 0.\<close>

definition py_range :: "int \<Rightarrow> int \<Rightarrow> int \<Rightarrow> int list" where
  "py_range start stop step =
     (if 0 < step
      then map (\<lambda>i. start + step * int i) [0..<nat ((stop - start + step - 1) div step)]
      else map (\<lambda>i. start + step * int i) [0..<nat ((start - stop - step - 1) div (- step))])"

text \<open>
  Indexing an array of length \<open>n\<close> with an integer: a negative index counts from the
  end, an index outside \<open>[-n, n)\<close> raises \<open>IndexError\<close>.
\<close>

definition np_index :: "nat \<Rightarrow> int \<Rightarrow> error + nat" where
  "np_index n i =
     (if 0 \<le> i \<and> i < int n then Inr (nat i)
      else if i < 0 \<and> - int n \<le> i then Inr (nat (int n + i))
      else Inl IndexError)"

definition np_get :: "'a list \<Rightarrow> int \<Rightarrow> error + 'a" where
  "np_get xs i = (case np_index (length xs) i of Inl e \<Rightarrow> Inl e | Inr j \<Rightarrow> Inr (xs ! j))"

text \<open>\<open>np.where(df == v)[0]\<close>: the indices of the entries equal to \<open>v\<close>, ascending.\<close>

definition np_where_eq :: "int list \<Rightarrow> int \<Rightarrow> nat list" where
  "np_where_eq df v = filter (\<lambda>i. df ! i = v) [0..<length df]"

text \<open>
  \<open>a[lo:hi] = v\<close> on a one-dimensional array: each bound is normalised as Python does
  (a negative bound counts from the end, every bound is clipped to the length), and the
  cells in between, if any, are overwritten.
\<close>

definition slice_bound :: "nat \<Rightarrow> int \<Rightarrow> nat" where
  "slice_bound n i = nat (if i < 0 then max 0 (i + int n) else min i (int n))"

definition slice_fill :: "int list \<Rightarrow> int \<Rightarrow> int \<Rightarrow> int \<Rightarrow> int list" where
  "slice_fill xs lo hi v =
     (let a = slice_bound (length xs) lo; b = slice_bound (length xs) hi in
      if a < b then take a xs @ replicate (b - a) v @ drop b xs else xs)"

text \<open>\<open>str.lower()\<close> on the letters A to Z; no other character turns into a letter of "gauss".\<close>

definition lower_char :: "char \<Rightarrow> char" where
  "lower_char c =
     (case map_of (zip ''ABCDEFGHIJKLMNOPQRSTUVWXYZ'' ''abcdefghijklmnopqrstuvwxyz'') c of
        None \<Rightarrow> c
      | Some l \<Rightarrow> l)"

definition py_lower :: "string \<Rightarrow> string" where
  "py_lower s = map lower_char s"

section \<open>Cartesian line scheduling\<close>

subsection \<open>Checks and target k-space\<close>

text \<open>
  The head of \<open>LUT_1D_Cartesian.py\<close>: the three assertions, then \<open>extraLines\<close> and the index
  vector \<open>k\<close>, then the test of the density shape. A failure carries the exception and the
  integer arrays built before it was raised. (\<open>kSpaceCenter\<close> enters only the floating-point
  weights.)
\<close>

definition calculate_target ::
  "int \<Rightarrow> int \<Rightarrow> int \<Rightarrow> string \<Rightarrow> (error \<times> int list list) + (int \<times> int list)" where
  "calculate_target targetKspaceSize trajectoryLength sigma densityShape =
     (case mustBePosEvenInt targetKspaceSize of Inl e \<Rightarrow> Inl (e, []) | Inr _ \<Rightarrow>
      case mustBePosEvenInt trajectoryLength of Inl e \<Rightarrow> Inl (e, []) | Inr _ \<Rightarrow>
      case mustBePosEvenInt sigma of Inl e \<Rightarrow> Inl (e, []) | Inr _ \<Rightarrow>
        (let extraLines = trajectoryLength - targetKspaceSize;
             k = arange 1 (targetKspaceSize + 1)
         in if densityShape = ''gauss'' then Inr (extraLines, k) else Inl (ValueError, [k])))"

text \<open>The same part of \<open>generate_cartesian_1d_trajectory\<close>, which lower-cases the shape.\<close>

definition kspace_target ::
  "int \<Rightarrow> int \<Rightarrow> int \<Rightarrow> string \<Rightarrow> (error \<times> int list list) + (int \<times> int list)" where
  "kspace_target target_kspace_size trajectory_length sigma density_shape =
     (case must_be_pos_even_int target_kspace_size of Inl e \<Rightarrow> Inl (e, []) | Inr _ \<Rightarrow>
      case must_be_pos_even_int trajectory_length of Inl e \<Rightarrow> Inl (e, []) | Inr _ \<Rightarrow>
      case must_be_pos_even_int sigma of Inl e \<Rightarrow> Inl (e, []) | Inr _ \<Rightarrow>
        (let extra_lines = trajectory_length - target_kspace_size;
             k = arange 1 (target_kspace_size + 1)
         in if py_lower density_shape = ''gauss'' then Inr (extra_lines, k)
            else Inl (ValueError, [k])))"

subsection \<open>Discretisation of the density\<close>

text \<open>
  The weights \<open>d\<close> and the products \<open>d * incr\<close> are double-precision numbers. The model
  takes the line \<open>np.round(d * incr).astype(int)\<close> as a table \<open>rnd\<close>: \<open>rnd n j\<close> is the
  rounded value for line index \<open>j\<close> once \<open>incr\<close> has been incremented \<open>n\<close> times. The
  vector \<open>df\<close> is the table applied to every element of \<open>k\<close>.
\<close>

definition scaled :: "(nat \<Rightarrow> int \<Rightarrow> int) \<Rightarrow> int list \<Rightarrow> nat \<Rightarrow> int list" where
  "scaled rnd k n = map (rnd n) k"

text \<open>
  The scale-up loop: \<open>while np.sum(df) <= extraLines: incr += 0.001; df = ...\<close>. It may
  run forever (a table that never exceeds the surplus), so not returning is \<open>None\<close>.
\<close>

partial_function (option) scale_up ::
  "(nat \<Rightarrow> int \<Rightarrow> int) \<Rightarrow> int list \<Rightarrow> int \<Rightarrow> nat \<Rightarrow> int list option" where
  "scale_up rnd k extraLines n =
     (if sum_list (scaled rnd k n) \<le> extraLines
      then scale_up rnd k extraLines (Suc n)
      else Some (scaled rnd k n))"

subsection \<open>Trimming\<close>

text \<open>
  The trimming loop. The result carries the vector, the number of iterations performed
  and how the loop ended: \<open>Cond\<close> when the \<open>while\<close> condition failed, \<open>Break\<close> when no
  entry equal to 1 was left.
\<close>

datatype loop_exit = Cond | Break

lemma np_where_eq_length: "length (np_where_eq df v) = card {i. i < length df \<and> df ! i = v}"
proof -
  have "distinct (np_where_eq df v)"
    by (simp add: np_where_eq_def)
  then have "length (np_where_eq df v) = card (set (np_where_eq df v))"
    by (simp add: distinct_card)
  also have "set (np_where_eq df v) = {i. i < length df \<and> df ! i = v}"
    by (auto simp: np_where_eq_def)
  finally show ?thesis .
qed

lemma np_where_eq_mem: "i \<in> set (np_where_eq df v) \<longleftrightarrow> i < length df \<and> df ! i = v"
  by (auto simp: np_where_eq_def)

lemma np_where_eq_zeroed:
  assumes "i \<in> set (np_where_eq df 1)"
  shows "length (np_where_eq (df[i := 0]) 1) < length (np_where_eq df 1)"
proof -
  from assms have i: "i < length df" "df ! i = 1"
    by (simp_all add: np_where_eq_mem)
  have "{j. j < length (df[i := 0]) \<and> df[i := 0] ! j = 1} \<subset> {j. j < length df \<and> df ! j = 1}"
  proof
    show "{j. j < length (df[i := 0]) \<and> df[i := 0] ! j = 1} \<subseteq> {j. j < length df \<and> df ! j = 1}"
    proof (rule subsetI)
      fix j assume "j \<in> {j. j < length (df[i := 0]) \<and> df[i := 0] ! j = 1}"
      then have j: "j < length df" "df[i := 0] ! j = 1" by simp_all
      have "j \<noteq> i" using j i by auto
      then show "j \<in> {j. j < length df \<and> df ! j = 1}" using j by simp
    qed
    show "{j. j < length (df[i := 0]) \<and> df[i := 0] ! j = 1} \<noteq> {j. j < length df \<and> df ! j = 1}"
      using i by (auto simp: nth_list_update)
  qed
  then have "card {j. j < length (df[i := 0]) \<and> df[i := 0] ! j = 1}
      < card {j. j < length df \<and> df ! j = 1}"
    by (intro psubset_card_mono) simp_all
  then show ?thesis
    by (simp only: np_where_eq_length)
qed

text \<open>One pass of the loop body: \<open>df[loc[0]] = 0\<close> when \<open>pm\<close>, else \<open>df[loc[-1]] = 0\<close>.\<close>

definition zero_one :: "int list \<Rightarrow> bool \<Rightarrow> int list" where
  "zero_one df pm =
     (let loc = np_where_eq df 1 in if pm then df[hd loc := 0] else df[last loc := 0])"

lemma zero_one_index:
  assumes "np_where_eq df 1 \<noteq> []"
  shows "\<exists>i. i < length df \<and> df ! i = 1 \<and> zero_one df pm = df[i := 0]"
proof -
  let ?i = "if pm then hd (np_where_eq df 1) else last (np_where_eq df 1)"
  from assms have "?i \<in> set (np_where_eq df 1)" by simp
  then have "?i < length df \<and> df ! ?i = 1" by (simp only: np_where_eq_mem)
  moreover have "zero_one df pm = df[?i := 0]" by (simp add: zero_one_def)
  ultimately show ?thesis by blast
qed

function trim_loop :: "int list \<Rightarrow> int \<Rightarrow> bool \<Rightarrow> nat \<Rightarrow> int list \<times> nat \<times> loop_exit" where
  "trim_loop df extraLines pm it =
     (if sum_list df > extraLines
      then (if np_where_eq df 1 = [] then (df, it, Break)
            else trim_loop (zero_one df pm) extraLines (\<not> pm) (Suc it))
      else (df, it, Cond))"
  by pat_completeness auto
termination
proof (relation "measure (\<lambda>(df, extraLines, pm, it). length (np_where_eq df 1))")
  show "wf (measure (\<lambda>(df, extraLines, pm, it). length (np_where_eq df 1)))"
    by simp
next
  fix df :: "int list" and extraLines :: int and pm :: bool and it :: nat
  assume "np_where_eq df 1 \<noteq> []"
  then obtain i where i: "i < length df" "df ! i = 1" "zero_one df pm = df[i := 0]"
    using zero_one_index by blast
  then have "i \<in> set (np_where_eq df 1)" by (simp add: np_where_eq_mem)
  then have "length (np_where_eq (zero_one df pm) 1) < length (np_where_eq df 1)"
    using i(3) by (simp add: np_where_eq_zeroed)
  then show "((zero_one df pm, extraLines, \<not> pm, Suc it), (df, extraLines, pm, it))
             \<in> measure (\<lambda>(df, extraLines, pm, it). length (np_where_eq df 1))"
    by simp
qed

declare trim_loop.simps [simp del]

text \<open>
  The balancer: the scale-up loop, then the trimming loop started with \<open>pm = True\<close>.
\<close>

definition balance :: "(nat \<Rightarrow> int \<Rightarrow> int) \<Rightarrow> int list \<Rightarrow> int \<Rightarrow> int list option" where
  "balance rnd k extraLines =
     (case scale_up rnd k extraLines 0 of
        None \<Rightarrow> None
      | Some df \<Rightarrow> Some (fst (trim_loop df extraLines True 0)))"

subsection \<open>Zigzag trajectory\<close>

text \<open>
  \<open>LUT_1D_Cartesian.py\<close>: \<open>for i in ...: traj.extend([i + 1] * d[i])\<close> over a list of
  indices. A list times a count that is not positive is empty.
\<close>

fun extend_lines :: "int list \<Rightarrow> int list \<Rightarrow> int list \<Rightarrow> error + int list" where
  "extend_lines d [] traj = Inr traj"
| "extend_lines d (i # rest) traj =
     (case np_get d i of
        Inl e \<Rightarrow> Inl e
      | Inr c \<Rightarrow> extend_lines d rest (traj @ replicate (nat c) (i + 1)))"

definition zigzag_script :: "int \<Rightarrow> int list \<Rightarrow> error + int list" where
  "zigzag_script targetKspaceSize d =
     (case extend_lines d (py_range 0 targetKspaceSize 2) [] of
        Inl e \<Rightarrow> Inl e
      | Inr up \<Rightarrow>
          (case extend_lines d (py_range (targetKspaceSize - 1) 0 (- 2)) up of
             Inl e \<Rightarrow> Inl e
           | Inr traj \<Rightarrow> Inr (map (\<lambda>v. v - targetKspaceSize div 2 - 1) traj)))"

text \<open>
  \<open>generate_cartesian_1d_trajectory\<close>: the array is \<open>np.empty(trajectory_length)\<close>, whose
  cells hold whatever was in memory (\<open>uninit\<close> gives the content of cell \<open>j\<close>), and every
  line is written by a slice assignment \<open>traj[cnt : cnt + d_int[k_idx - 1]] = k_idx\<close>.
  The final \<open>traj - target_kspace_size / 2 - 1\<close> is a float array of whole numbers.
\<close>

fun fill_lines :: "int list \<Rightarrow> int list \<Rightarrow> int list \<Rightarrow> int \<Rightarrow> error + (int list \<times> int)" where
  "fill_lines d_int [] traj cnt = Inr (traj, cnt)"
| "fill_lines d_int (k_idx # rest) traj cnt =
     (case np_get d_int (k_idx - 1) of
        Inl e \<Rightarrow> Inl e
      | Inr c \<Rightarrow> fill_lines d_int rest (slice_fill traj cnt (cnt + c) k_idx) (cnt + c))"

definition zigzag_fn :: "(nat \<Rightarrow> int) \<Rightarrow> int \<Rightarrow> int \<Rightarrow> int list \<Rightarrow> error + int list" where
  "zigzag_fn uninit target_kspace_size trajectory_length d_int =
     (case fill_lines d_int (py_range 1 (target_kspace_size + 1) 2)
             (map uninit [0..<nat trajectory_length]) 0 of
        Inl e \<Rightarrow> Inl e
      | Inr (up, cnt) \<Rightarrow>
          (case fill_lines d_int (py_range target_kspace_size 1 (- 2)) up cnt of
             Inl e \<Rightarrow> Inl e
           | Inr (traj, cnt') \<Rightarrow> Inr (map (\<lambda>v. v - target_kspace_size div 2 - 1) traj)))"

subsection \<open>Simulated random filling\<close>

text \<open>
  The drawn indices \<open>samples\<close> come from \<open>np.random.randint(0, trajectoryLength, N)\<close> and
  are an input of the model. \<open>LUT_1D_Cartesian.py\<close> skips a bucket index outside
  \<open>[0, targetKspaceSize)\<close>.
\<close>

fun fill_script :: "int list \<Rightarrow> int \<Rightarrow> int list \<Rightarrow> int list \<Rightarrow> error + int list" where
  "fill_script traj targetKspaceSize [] filling = Inr filling"
| "fill_script traj targetKspaceSize (s # rest) filling =
     (case np_get traj s of
        Inl e \<Rightarrow> Inl e
      | Inr t \<Rightarrow>
          (let index = t + targetKspaceSize div 2 in
           if 0 \<le> index \<and> index < targetKspaceSize
           then fill_script traj targetKspaceSize rest
                  (filling[nat index := filling ! nat index + 1])
           else fill_script traj targetKspaceSize rest filling))"

text \<open>\<open>generate_cartesian_1d_trajectory\<close> indexes the histogram without a test.\<close>

fun fill_fn :: "int list \<Rightarrow> int \<Rightarrow> int list \<Rightarrow> int list \<Rightarrow> error + int list" where
  "fill_fn traj target_kspace_size [] filling = Inr filling"
| "fill_fn traj target_kspace_size (s # rest) filling =
     (case np_get traj s of
        Inl e \<Rightarrow> Inl e
      | Inr t \<Rightarrow>
          (case np_index (length filling) (t + target_kspace_size div 2) of
             Inl e \<Rightarrow> Inl e
           | Inr idx \<Rightarrow>
               fill_fn traj target_kspace_size rest (filling[idx := filling ! idx + 1])))"

text \<open>
  \<open>filling / np.sum(filling)\<close>, in exact arithmetic. numpy divides by a zero total without
  raising and fills the array with NaN, which is \<open>None\<close> here.
\<close>

definition normalise :: "int list \<Rightarrow> rat list option" where
  "normalise filling =
     (if sum_list filling = 0 then None
      else Some (map (\<lambda>c. of_int c / of_int (sum_list filling)) filling))"

subsection \<open>The two programs\<close>

text \<open>
  The result is \<open>None\<close> when the scale-up loop does not return, \<open>Some (Inl e)\<close> when \<open>e\<close>
  is raised, and otherwise the trajectory (which is what is exported) with the
  normalised histogram.
\<close>

definition LUT_1D_Cartesian ::
  "(nat \<Rightarrow> int \<Rightarrow> int) \<Rightarrow> int list \<Rightarrow> int \<Rightarrow> int \<Rightarrow> string \<Rightarrow> int
     \<Rightarrow> (error + int list \<times> rat list option) option" where
  "LUT_1D_Cartesian rnd samples targetKspaceSize trajectoryLength densityShape sigma =
     (case calculate_target targetKspaceSize trajectoryLength sigma densityShape of
        Inl (e, arrays) \<Rightarrow> Some (Inl e)
      | Inr (extraLines, k) \<Rightarrow>
          (case balance rnd k extraLines of
             None \<Rightarrow> None
           | Some df \<Rightarrow>
               Some (case zigzag_script targetKspaceSize (map (\<lambda>x. 1 + x) df) of
                  Inl e \<Rightarrow> Inl e
                | Inr traj \<Rightarrow>
                    (case fill_script traj targetKspaceSize samples
                            (replicate (nat targetKspaceSize) 0) of
                       Inl e \<Rightarrow> Inl e
                     | Inr filling \<Rightarrow> Inr (traj, normalise filling)))))"

definition generate_cartesian_1d_trajectory ::
  "(nat \<Rightarrow> int \<Rightarrow> int) \<Rightarrow> (nat \<Rightarrow> int) \<Rightarrow> int list \<Rightarrow> int \<Rightarrow> int \<Rightarrow> int \<Rightarrow> string
     \<Rightarrow> (error + int list \<times> rat list option) option" where
  "generate_cartesian_1d_trajectory rnd uninit samples target_kspace_size trajectory_length
       sigma density_shape =
     (case kspace_target target_kspace_size trajectory_length sigma density_shape of
        Inl (e, arrays) \<Rightarrow> Some (Inl e)
      | Inr (extra_lines, k) \<Rightarrow>
          (case balance rnd k extra_lines of
             None \<Rightarrow> None
           | Some df \<Rightarrow>
               Some (case zigzag_fn uninit target_kspace_size trajectory_length
                            (map (\<lambda>x. 1 + x) df) of
                  Inl e \<Rightarrow> Inl e
                | Inr traj \<Rightarrow>
                    (case fill_fn traj target_kspace_size samples
                            (replicate (nat target_kspace_size) 0) of
                       Inl e \<Rightarrow> Inl e
                     | Inr filling \<Rightarrow> Inr (traj, normalise filling)))))"

subsection \<open>The assembler in the words of the specification\<close>

text \<open>
  Visit the lines \<open>1, 3, ..., N - 1\<close> in ascending order, then \<open>N, N - 2, ..., 2\<close> in
  descending order; append \<open>1 + r[k]\<close> copies of each line \<open>k\<close> (\<open>r\<close> is indexed by the
  line, from 1); finally subtract \<open>N / 2 + 1\<close> from every value.
\<close>

definition odd_lines :: "int \<Rightarrow> int list" where
  "odd_lines N = map (\<lambda>j. 2 * int j + 1) [0..<nat (N div 2)]"

definition even_lines :: "int \<Rightarrow> int list" where
  "even_lines N = map (\<lambda>j. N - 2 * int j) [0..<nat (N div 2)]"

definition zigzag_spec :: "int \<Rightarrow> int list \<Rightarrow> int list" where
  "zigzag_spec N r =
     map (\<lambda>v. v - (N div 2 + 1))
       (concat (map (\<lambda>k. replicate (nat (1 + r ! nat (k - 1))) k) (odd_lines N @ even_lines N)))"

section \<open>Golden-angle trajectories in the plane\<close>

subsection \<open>Elliptical support\<close>

text \<open>
  \<open>pt[0]**2 / ry**2 + pt[1]**2 / rz**2 <= 1\<close> with \<open>ry = dimy / 2\<close> and \<open>rz = dimz / 2\<close>, in
  exact arithmetic (numpy evaluates it in double precision, which is exact when the
  dimensions are powers of two).
\<close>

definition inside_ellipse :: "int \<Rightarrow> int \<Rightarrow> int \<times> int \<Rightarrow> bool" where
  "inside_ellipse dimy dimz pt =
     (let ry = rat_of_int dimy / 2; rz = rat_of_int dimz / 2 in
      rat_of_int ((fst pt)\<^sup>2) / ry\<^sup>2 + rat_of_int ((snd pt)\<^sup>2) / rz\<^sup>2 \<le> 1)"

subsection \<open>Pseudo-radial spokes\<close>

text \<open>
  The loop over \<open>spoke\<close> that keeps the first occurrence of every point: \<open>seen\<close> is the set of
  points met so far.
\<close>

fun spoke_unique :: "(int \<times> int) list \<Rightarrow> (int \<times> int) list \<Rightarrow> (int \<times> int) list" where
  "spoke_unique seen [] = []"
| "spoke_unique seen (pt # rest) =
     (if pt \<in> set seen then spoke_unique seen rest else pt # spoke_unique (pt # seen) rest)"

text \<open>
  The angle, its cosine and sine and the rounding are floating point: \<open>raster n\<close> is
  \<open>zip(y, z)\<close> of spoke number \<open>n\<close> before the flip. What one pass of the loop appends:
\<close>

definition spoke_inside ::
  "(nat \<Rightarrow> (int \<times> int) list) \<Rightarrow> int \<Rightarrow> int \<Rightarrow> int \<Rightarrow> nat \<Rightarrow> (int \<times> int) list" where
  "spoke_inside raster order dimy dimz spokeNr =
     (let spoke = (if order = 1 \<and> spokeNr mod 2 = 0 then rev (raster spokeNr)
                   else raster spokeNr)
      in filter (inside_ellipse dimy dimz) (spoke_unique [] spoke))"

text \<open>
  \<open>while len(kSpaceList) < numPointsTarget\<close>, with the truncation and \<open>break\<close> on overshoot.
  The loop need not end (a table of spokes without a point inside), so not returning is
  \<open>None\<close>. The result is the list and the spoke counter.
\<close>

partial_function (option) spoke_loop ::
  "(nat \<Rightarrow> (int \<times> int) list) \<Rightarrow> int \<Rightarrow> int \<Rightarrow> int \<Rightarrow> (int \<times> int) list \<Rightarrow> nat
     \<Rightarrow> ((int \<times> int) list \<times> nat) option" where
  "spoke_loop raster order dimy dimz kSpaceList spokeNr =
     (if int (length kSpaceList) < dimy * dimz
      then (if dimy * dimz
                 < int (length (kSpaceList @ spoke_inside raster order dimy dimz (Suc spokeNr)))
            then Some (take (nat (dimy * dimz))
                         (kSpaceList @ spoke_inside raster order dimy dimz (Suc spokeNr)),
                       Suc spokeNr)
            else spoke_loop raster order dimy dimz
                   (kSpaceList @ spoke_inside raster order dimy dimz (Suc spokeNr)) (Suc spokeNr))
      else Some (kSpaceList, spokeNr))"

subsection \<open>Pseudo-spiral clean-up\<close>

text \<open>
  The accumulated, floored coordinates \<open>np.column_stack((ky, kz))\<close> are an input. One
  compaction pass keeps the first row and every row that differs from the row before it;
  on an array without rows the mask has one entry too many and numpy raises.
\<close>

fun keep_changes :: "int \<times> int \<Rightarrow> (int \<times> int) list \<Rightarrow> (int \<times> int) list" where
  "keep_changes prev [] = []"
| "keep_changes prev (pt # rest) =
     (if pt \<noteq> prev then pt # keep_changes pt rest else keep_changes pt rest)"

fun compact_pass :: "(int \<times> int) list \<Rightarrow> error + (int \<times> int) list" where
  "compact_pass [] = Inl IndexError"
| "compact_pass (pt # rest) = Inr (pt # keep_changes pt rest)"

fun remove_repeats :: "nat \<Rightarrow> (int \<times> int) list \<Rightarrow> error + (int \<times> int) list" where
  "remove_repeats 0 kSpaceList = Inr kSpaceList"
| "remove_repeats (Suc n) kSpaceList =
     (case compact_pass kSpaceList of
        Inl e \<Rightarrow> Inl e
      | Inr compacted \<Rightarrow> remove_repeats n compacted)"

text \<open>
  \<open>loc = np.where(origin)[0]\<close>, \<open>loc[::2]\<close> and \<open>np.delete(kSpaceList, loc[::2], axis=0)\<close>.
\<close>

definition origin_where :: "(int \<times> int) list \<Rightarrow> nat list" where
  "origin_where kSpaceList = map fst (filter (\<lambda>(i, pt). pt = (0, 0)) (enumerate 0 kSpaceList))"

fun every_other :: "'a list \<Rightarrow> 'a list" where
  "every_other [] = []"
| "every_other [x] = [x]"
| "every_other (x # y # rest) = x # every_other rest"

definition np_delete :: "'a list \<Rightarrow> nat list \<Rightarrow> 'a list" where
  "np_delete xs idxs = map snd (filter (\<lambda>(i, x). i \<notin> set idxs) (enumerate 0 xs))"

definition prune_origin :: "(int \<times> int) list \<Rightarrow> (int \<times> int) list" where
  "prune_origin kSpaceList = np_delete kSpaceList (every_other (origin_where kSpaceList))"

text \<open>
  The three steps: a hundred compaction passes, the pruning, and the slice
  \<open>kSpaceList[:dimy * dimz * reps]\<close>.
\<close>

definition spiral_cleanup ::
  "(int \<times> int) list \<Rightarrow> int \<Rightarrow> int \<Rightarrow> int \<Rightarrow> error + (int \<times> int) list" where
  "spiral_cleanup kSpaceList dimy dimz reps =
     (case remove_repeats 100 kSpaceList of
        Inl e \<Rightarrow> Inl e
      | Inr compacted \<Rightarrow>
          Inr (take (slice_bound (length (prune_origin compacted)) (dimy * dimz * reps))
                 (prune_origin compacted)))"


subsection \<open>Coverage\<close>

record coverage =
  numUnique :: nat
  numTotal :: nat
  avgSamplesPerPoint :: rat
  numEllipticalPoints :: nat
  coveredFraction :: rat

text \<open>
  The analysis over a grid \<open>meshgrid(ys, zs)\<close>. Both divisions are divisions of Python
  numbers and raise on a zero divisor. \<open>coveredFraction\<close> is a percentage: a hundred times
  the coverage fraction.
\<close>

definition analyse ::
  "int list \<Rightarrow> int list \<Rightarrow> int \<Rightarrow> int \<Rightarrow> (int \<times> int) list \<Rightarrow> error + coverage" where
  "analyse ys zs dimy dimz kSpaceList =
     (let unique = length (remdups kSpaceList);
          total = length kSpaceList
      in if unique = 0 then Inl ZeroDivisionError
         else (let mask = length (filter (inside_ellipse dimy dimz) (List.product ys zs))
               in if mask = 0 then Inl ZeroDivisionError
                  else Inr \<lparr>numUnique = unique, numTotal = total,
                            avgSamplesPerPoint = of_nat total / of_nat unique,
                            numEllipticalPoints = mask,
                            coveredFraction = 100 * of_nat unique / of_nat mask\<rparr>))"

text \<open>
  The radial script takes \<open>np.arange(-dimy//2, dimy//2)\<close>, the spiral script
  \<open>np.arange(-dimy//2, np.ceil(dimy/2))\<close>; \<open>-dimy//2\<close> is \<open>(-dimy)//2\<close>.
\<close>

definition coverage_radial :: "int \<Rightarrow> int \<Rightarrow> (int \<times> int) list \<Rightarrow> error + coverage" where
  "coverage_radial dimy dimz kSpaceList =
     analyse (arange ((- dimy) div 2) (dimy div 2)) (arange ((- dimz) div 2) (dimz div 2))
       dimy dimz kSpaceList"

definition coverage_spiral :: "int \<Rightarrow> int \<Rightarrow> (int \<times> int) list \<Rightarrow> error + coverage" where
  "coverage_spiral dimy dimz kSpaceList =
     analyse (arange ((- dimy) div 2) (- ((- dimy) div 2)))
       (arange ((- dimz) div 2) (- ((- dimz) div 2))) dimy dimz kSpaceList"

subsection \<open>The two scripts\<close>

definition exLUT_3D_radialTrajectory ::
  "(nat \<Rightarrow> (int \<times> int) list) \<Rightarrow> int \<Rightarrow> int \<Rightarrow> int
     \<Rightarrow> (error + (int \<times> int) list \<times> nat \<times> coverage) option" where
  "exLUT_3D_radialTrajectory raster order dimy dimz =
     (case spoke_loop raster order dimy dimz [] 0 of
        None \<Rightarrow> None
      | Some (kSpaceList, spokeNr) \<Rightarrow>
          Some (case coverage_radial dimy dimz kSpaceList of
                  Inl e \<Rightarrow> Inl e
                | Inr c \<Rightarrow> Inr (kSpaceList, spokeNr, c)))"

definition exLUT_3D_spiralTrajectory ::
  "(int \<times> int) list \<Rightarrow> int \<Rightarrow> int \<Rightarrow> int \<Rightarrow> error + (int \<times> int) list \<times> coverage" where
  "exLUT_3D_spiralTrajectory kSpaceList dimy dimz reps =
     (case spiral_cleanup kSpaceList dimy dimz reps of
        Inl e \<Rightarrow> Inl e
      | Inr cleaned \<Rightarrow>
          (case coverage_spiral dimy dimz cleaned of
             Inl e \<Rightarrow> Inl e
           | Inr c \<Rightarrow> Inr (cleaned, c)))"

section \<open>Inputs for worked examples\<close>

subsection \<open>A rounding table\<close>

text \<open>
  For worked examples the table is computed in exact integer arithmetic from weights
  given in millionths: \<open>incr\<close> after \<open>n\<close> increments is \<open>(900 + n) / 1000\<close>, the product
  with a weight \<open>w / 10^6\<close> is \<open>w * (900 + n) / 10^9\<close>, and \<open>np.round\<close> rounds a half to
  the even neighbour.
\<close>

definition round_half_even :: "int \<Rightarrow> int \<Rightarrow> int" where
  "round_half_even p q =
     (let f = p div q; r = p mod q in
      if 2 * r < q then f else if q < 2 * r then f + 1 else if even f then f else f + 1)"

definition rounded_table :: "int list \<Rightarrow> nat \<Rightarrow> int \<Rightarrow> int" where
  "rounded_table w n j = round_half_even (w ! nat (j - 1) * (900 + int n)) 1000000000"

subsection \<open>Rasterised spokes\<close>

text \<open>
  \<open>dimy = dimz = 3\<close> with the defaults \<open>angleNr = 10\<close> (16.95229 degrees) and \<open>order = 1\<close>: six
  samples \<open>t = -1, -0.6, -0.2, 0.2, 0.6, 1\<close> per spoke and \<open>ry = rz = 1.5\<close>. The products
  \<open>t * cos(theta) * ry\<close> of the first three spokes are \<open>1.4348 t\<close>, \<open>1.2449 t\<close>, \<open>0.9469 t\<close>,
  the products \<open>t * sin(theta) * rz\<close> are \<open>0.4374 t\<close>, \<open>0.8367 t\<close>, \<open>1.1634 t\<close>. The loop
  ends after the third spoke; the table repeats the diagonal for later spokes.
\<close>

definition raster_3x3 :: "nat \<Rightarrow> (int \<times> int) list" where
  "raster_3x3 n =
     (if n = 1 then [(-1, 0), (-1, 0), (0, 0), (0, 0), (1, 0), (1, 0)]
      else [(-1, -1), (-1, -1), (0, 0), (0, 0), (1, 1), (1, 1)])"

section \<open>The density in double precision\<close>

text \<open>
  The weights are numpy \<open>float64\<close> values. A finite double is a real number, and every
  operation returns the double nearest to the exact result, ties going to the even
  significand: \<open>rint\<close> rounds to the nearest integer in that way, \<open>ulp x\<close> is the spacing
  of the doubles around \<open>x\<close> (53 significant bits, least exponent \<open>-1022\<close>, gradual underflow),
  and \<open>float64 x\<close> is the double nearest to \<open>x\<close>. Overflow is left out: all magnitudes
  met here are below \<open>2 ^ 1024\<close>. \<open>np.exp\<close> and \<open>np.sqrt\<close> are taken as correctly rounded;
  a library \<open>exp\<close> may differ in the last bit, which changes neither a sign, nor a zero
  met on underflow, nor the equality of two calls on the same argument.
\<close>

definition rint :: "real \<Rightarrow> int" where
  "rint x =
     (if x - of_int \<lfloor>x\<rfloor> < 1 / 2 then \<lfloor>x\<rfloor>
      else if 1 / 2 < x - of_int \<lfloor>x\<rfloor> then \<lfloor>x\<rfloor> + 1
      else if even \<lfloor>x\<rfloor> then \<lfloor>x\<rfloor> else \<lfloor>x\<rfloor> + 1)"

definition ulp :: "real \<Rightarrow> real" where
  "ulp x = 2 powi (max (- 1022) \<lfloor>log 2 \<bar>x\<bar>\<rfloor> - 52)"

definition float64 :: "real \<Rightarrow> real" where
  "float64 x = of_int (rint (x / ulp x)) * ulp x"

text \<open>
  \<open>1 / (sigma * np.sqrt(2 * np.pi))\<close>, a \<open>float64\<close> scalar; \<open>np.pi\<close> is the double nearest
  to \<open>\<pi>\<close>.
\<close>

definition gauss_scale :: "int \<Rightarrow> real" where
  "gauss_scale sigma =
     float64 (1 / float64 (of_int sigma * float64 (sqrt (float64 (2 * float64 pi)))))"

text \<open>
  \<open>d = 1 / (sigma * np.sqrt(2 * np.pi)) * np.exp(-((k - k_space_center) ** 2) / (2 * sigma**2))\<close>
  for one line index: the square and \<open>2 * sigma**2\<close> are integers (exact as doubles below
  \<open>2 ^ 53\<close>), their quotient, the exponential and the product are doubles.
  \<open>k_space_center\<close> is \<open>target_kspace_size // 2 + 1\<close>; \<open>LUT_1D_Cartesian.py\<close> writes
  \<open>kSpaceCenter + 1\<close> with \<open>kSpaceCenter = targetKspaceSize // 2\<close>.
\<close>

definition gauss :: "int \<Rightarrow> int \<Rightarrow> int \<Rightarrow> real" where
  "gauss k_space_center sigma k_idx =
     float64 (gauss_scale sigma
       * float64 (exp (float64 (of_int (- ((k_idx - k_space_center)\<^sup>2)) / of_int (2 * sigma\<^sup>2)))))"

definition density :: "int \<Rightarrow> int \<Rightarrow> real list" where
  "density target_kspace_size sigma =
     map (gauss (target_kspace_size div 2 + 1) sigma) (arange 1 (target_kspace_size + 1))"

section \<open>Facts about the balancer\<close>

subsection \<open>Facts about the trimming loop\<close>

lemma sum_list_zeroed:
  fixes df :: "int list"
  shows "i < length df \<Longrightarrow> sum_list (df[i := 0]) = sum_list df - df ! i"
  by (induction df arbitrary: i) (auto simp: nth_Cons split: nat.splits)

lemma zero_one_length: "length (zero_one df pm) = length df"
  by (simp add: zero_one_def Let_def)

lemma zero_one_sum:
  assumes "np_where_eq df 1 \<noteq> []"
  shows "sum_list (zero_one df pm) = sum_list df - 1"
proof -
  obtain i where "i < length df" "df ! i = 1" "zero_one df pm = df[i := 0]"
    using zero_one_index [OF assms] by blast
  then show ?thesis by (simp add: sum_list_zeroed)
qed

lemma np_where_eq_zeroed_exact:
  assumes "i < length df" "df ! i = 1"
  shows "Suc (length (np_where_eq (df[i := 0]) 1)) = length (np_where_eq df 1)"
proof -
  have fin: "finite {j. j < length df \<and> df ! j = 1}" by simp
  have "{j. j < length (df[i := 0]) \<and> df[i := 0] ! j = 1} = {j. j < length df \<and> df ! j = 1} - {i}"
    using assms by (auto simp: nth_list_update)
  moreover have "i \<in> {j. j < length df \<and> df ! j = 1}" using assms by simp
  ultimately have "card {j. j < length (df[i := 0]) \<and> df[i := 0] ! j = 1}
      = card {j. j < length df \<and> df ! j = 1} - 1"
    "0 < card {j. j < length df \<and> df ! j = 1}"
    using fin by (simp_all only: card_Diff_singleton card_gt_0_iff) auto
  then have "Suc (card {j. j < length (df[i := 0]) \<and> df[i := 0] ! j = 1})
      = card {j. j < length df \<and> df ! j = 1}"
    by linarith
  then show ?thesis by (simp only: np_where_eq_length)
qed

lemma zero_one_ones:
  assumes "np_where_eq df 1 \<noteq> []"
  shows "Suc (length (np_where_eq (zero_one df pm) 1)) = length (np_where_eq df 1)"
proof -
  obtain i where "i < length df" "df ! i = 1" "zero_one df pm = df[i := 0]"
    using zero_one_index [OF assms] by blast
  then show ?thesis by (simp add: np_where_eq_zeroed_exact)
qed

lemma zero_one_nonneg:
  assumes "\<forall>x\<in>set df. 0 \<le> x"
  shows "\<forall>x\<in>set (zero_one df pm). 0 \<le> x"
proof -
  have "set (df[i := 0]) \<subseteq> insert 0 (set df)" for i
    by (rule set_update_subset_insert)
  then show ?thesis using assms by (auto simp: zero_one_def Let_def)
qed

lemma trim_loop_length: "length (fst (trim_loop df E pm it)) = length df"
proof (induction df E pm it rule: trim_loop.induct)
  case (1 df E pm it)
  then show ?case
    by (subst trim_loop.simps) (simp add: zero_one_length)
qed

lemma trim_loop_nonneg:
  "\<forall>x\<in>set df. 0 \<le> x \<Longrightarrow> \<forall>x\<in>set (fst (trim_loop df E pm it)). 0 \<le> x"
proof (induction df E pm it rule: trim_loop.induct)
  case (1 df E pm it)
  show ?case
  proof (cases "sum_list df > E \<and> np_where_eq df 1 \<noteq> []")
    case True
    then have "\<forall>x\<in>set (fst (trim_loop (zero_one df pm) E (\<not> pm) (Suc it))). 0 \<le> x"
      using "1.IH" zero_one_nonneg [OF "1.prems"] by blast
    then show ?thesis using True by (subst trim_loop.simps) simp
  next
    case False
    then show ?thesis using "1.prems" by (subst trim_loop.simps) auto
  qed
qed

text \<open>No trimming when the sum is not above the surplus.\<close>
lemma trim_loop_idle: "sum_list df \<le> E \<Longrightarrow> trim_loop df E pm it = (df, it, Cond)"
  by (subst trim_loop.simps) simp

lemma trim_loop_enough:
  "E < sum_list df \<Longrightarrow> sum_list df - E \<le> int (length (np_where_eq df 1)) \<Longrightarrow>
   \<exists>df'. trim_loop df E pm it = (df', it + nat (sum_list df - E), Cond) \<and> sum_list df' = E"
proof (induction df E pm it rule: trim_loop.induct)
  case (1 df E pm it)
  from "1.prems" have ne: "np_where_eq df 1 \<noteq> []" by auto
  have step: "trim_loop df E pm it = trim_loop (zero_one df pm) E (\<not> pm) (Suc it)"
    using "1.prems"(1) ne by (subst trim_loop.simps) simp
  have s: "sum_list (zero_one df pm) = sum_list df - 1" by (rule zero_one_sum [OF ne])
  have c: "Suc (length (np_where_eq (zero_one df pm) 1)) = length (np_where_eq df 1)"
    by (rule zero_one_ones [OF ne])
  show ?case
  proof (cases "sum_list df - 1 = E")
    case True
    then have "trim_loop (zero_one df pm) E (\<not> pm) (Suc it) = (zero_one df pm, Suc it, Cond)"
      using s by (simp add: trim_loop_idle)
    then show ?thesis using step s True by simp
  next
    case False
    then have gt: "E < sum_list (zero_one df pm)" using "1.prems"(1) s by simp
    have le: "sum_list (zero_one df pm) - E \<le> int (length (np_where_eq (zero_one df pm) 1))"
      using "1.prems"(2) s c by linarith
    obtain df' where "trim_loop (zero_one df pm) E (\<not> pm) (Suc it)
        = (df', Suc it + nat (sum_list (zero_one df pm) - E), Cond)" "sum_list df' = E"
      using "1.IH" [OF "1.prems"(1) ne gt le] by blast
    moreover have "Suc it + nat (sum_list (zero_one df pm) - E) = it + nat (sum_list df - E)"
      using s gt by simp
    ultimately show ?thesis using step by simp
  qed
qed

lemma trim_loop_short:
  "int (length (np_where_eq df 1)) < sum_list df - E \<Longrightarrow>
   \<exists>df'. trim_loop df E pm it = (df', it + length (np_where_eq df 1), Break)
     \<and> sum_list df' = sum_list df - int (length (np_where_eq df 1))
     \<and> np_where_eq df' 1 = []"
proof (induction df E pm it rule: trim_loop.induct)
  case (1 df E pm it)
  from "1.prems" have gt: "E < sum_list df" by linarith
  show ?case
  proof (cases "np_where_eq df 1 = []")
    case True
    then show ?thesis using gt by (subst trim_loop.simps) simp
  next
    case ne: False
    have step: "trim_loop df E pm it = trim_loop (zero_one df pm) E (\<not> pm) (Suc it)"
      using gt ne by (subst trim_loop.simps) simp
    have s: "sum_list (zero_one df pm) = sum_list df - 1" by (rule zero_one_sum [OF ne])
    have c: "Suc (length (np_where_eq (zero_one df pm) 1)) = length (np_where_eq df 1)"
      by (rule zero_one_ones [OF ne])
    have lt: "int (length (np_where_eq (zero_one df pm) 1)) < sum_list (zero_one df pm) - E"
      using "1.prems" s c by linarith
    obtain df' where r: "trim_loop (zero_one df pm) E (\<not> pm) (Suc it)
        = (df', Suc it + length (np_where_eq (zero_one df pm) 1), Break)"
      "sum_list df' = sum_list (zero_one df pm) - int (length (np_where_eq (zero_one df pm) 1))"
      "np_where_eq df' 1 = []"
      using "1.IH" [OF gt ne lt] by blast
    have "Suc it + length (np_where_eq (zero_one df pm) 1) = it + length (np_where_eq df 1)"
      using c by simp
    moreover have "sum_list df' = sum_list df - int (length (np_where_eq df 1))"
      using r(2) s c by linarith
    ultimately show ?thesis using step r(1,3) by simp
  qed
qed


subsection \<open>Facts about the scale-up loop\<close>

lemma scaled_length: "length (scaled rnd k n) = length k"
  by (simp add: scaled_def)

lemma arange_length: "length (arange a b) = nat (b - a)"
  by (simp add: arange_def)

lemma arange_set: "set (arange a b) = {a..<b}"
  by (auto simp: arange_def)

lemma scale_up_search:
  "E < sum_list (scaled rnd ks m) \<Longrightarrow> n \<le> m \<Longrightarrow>
   \<exists>k. n \<le> k \<and> k \<le> m \<and> scale_up rnd ks E n = Some (scaled rnd ks k)
       \<and> E < sum_list (scaled rnd ks k)"
proof (induction "m - n" arbitrary: n)
  case 0
  then have "n = m" by simp
  then show ?case using "0.prems"(1) by (subst scale_up.simps) auto
next
  case (Suc d)
  show ?case
  proof (cases "sum_list (scaled rnd ks n) \<le> E")
    case True
    have "n \<noteq> m" using True Suc.prems(1) by auto
    then have "d = m - Suc n" "Suc n \<le> m" using Suc.hyps(2) Suc.prems(2) by simp_all
    then obtain k where k: "Suc n \<le> k" "k \<le> m"
      "scale_up rnd ks E (Suc n) = Some (scaled rnd ks k)" "E < sum_list (scaled rnd ks k)"
      using Suc.hyps(1) Suc.prems(1) by blast
    have "scale_up rnd ks E n = Some (scaled rnd ks k)"
      using True k(3) by (subst scale_up.simps) simp
    then show ?thesis using k by (intro exI [of _ k]) simp
  next
    case False
    then have "scale_up rnd ks E n = Some (scaled rnd ks n)"
      by (subst scale_up.simps) simp
    then show ?thesis using False Suc.prems(2) by (intro exI [of _ n]) simp
  qed
qed

lemma scale_up_first:
  assumes "E < sum_list (scaled rnd ks n)" and "\<forall>m<n. sum_list (scaled rnd ks m) \<le> E"
  shows "scale_up rnd ks E 0 = Some (scaled rnd ks n)"
proof -
  obtain k where k: "k \<le> n" "scale_up rnd ks E 0 = Some (scaled rnd ks k)"
    "E < sum_list (scaled rnd ks k)"
    using scale_up_search [OF assms(1), of 0] by auto
  have "k = n"
  proof (rule ccontr)
    assume "k \<noteq> n"
    then have "k < n" using k(1) by simp
    then show False using assms(2) k(3) by fastforce
  qed
  then show ?thesis using k(2) by simp
qed

lemma scale_up_Some:
  assumes "scale_up rnd ks E n = Some df"
  shows "E < sum_list df \<and> (\<exists>k. df = scaled rnd ks k)"
proof (rule scale_up.raw_induct
    [where P = "\<lambda>rnd ks E n df. E < sum_list df \<and> (\<exists>k. df = scaled rnd ks k)", OF _ assms])
  fix f rnd' ks' E' n' y
  assume IH: "\<And>rnd ks E n y. f rnd ks E n = Some y
      \<Longrightarrow> E < sum_list y \<and> (\<exists>k. y = scaled rnd ks k)"
    and eq: "(if sum_list (scaled rnd' ks' n') \<le> E' then f rnd' ks' E' (Suc n')
              else Some (scaled rnd' ks' n')) = Some y"
  show "E' < sum_list y \<and> (\<exists>k. y = scaled rnd' ks' k)"
  proof (cases "sum_list (scaled rnd' ks' n') \<le> E'")
    case True
    then show ?thesis using IH eq by simp
  next
    case False
    then show ?thesis using eq by auto
  qed
qed

subsection \<open>Facts about the rounding table\<close>

lemma round_half_even_mono:
  assumes "0 < q" "p \<le> p'"
  shows "round_half_even p q \<le> round_half_even p' q"
proof (cases "p div q = p' div q")
  case True
  have "p mod q \<le> p' mod q"
    using assms(2) True by (metis add_le_cancel_left mult_div_mod_eq)
  then show ?thesis using True by (auto simp: round_half_even_def Let_def)
next
  case False
  have "p div q \<le> p' div q" using assms by (simp add: zdiv_mono1)
  then have "p div q + 1 \<le> p' div q" using False by linarith
  moreover have "round_half_even p q \<le> p div q + 1" by (simp add: round_half_even_def Let_def)
  moreover have "p' div q \<le> round_half_even p' q" by (simp add: round_half_even_def Let_def)
  ultimately show ?thesis by linarith
qed

lemma rounded_table_mono:
  assumes "\<forall>x\<in>set w. 0 \<le> x" "m \<le> n" "0 < j" "nat (j - 1) < length w"
  shows "rounded_table w m j \<le> rounded_table w n j"
proof -
  have "0 \<le> w ! nat (j - 1)" using assms(1,4) by simp
  then have "w ! nat (j - 1) * (900 + int m) \<le> w ! nat (j - 1) * (900 + int n)"
    using assms(2) by (simp add: mult_left_mono)
  then show ?thesis unfolding rounded_table_def by (intro round_half_even_mono) simp_all
qed

lemma scaled_table_mono:
  assumes "\<forall>x\<in>set w. 0 \<le> x" "m \<le> n" "set ks \<subseteq> {1..int (length w)}"
  shows "sum_list (scaled (rounded_table w) ks m) \<le> sum_list (scaled (rounded_table w) ks n)"
  unfolding scaled_def
proof (rule sum_list_mono)
  fix j assume "j \<in> set ks"
  then have "1 \<le> j \<and> j \<le> int (length w)" using assms(3) by auto
  then have "0 < j" "nat (j - 1) < length w" by linarith+
  then show "rounded_table w m j \<le> rounded_table w n j"
    using rounded_table_mono [OF assms(1,2)] by blast
qed

lemma scale_up_table:
  assumes "\<forall>x\<in>set w. 0 \<le> x" "set ks \<subseteq> {1..int (length w)}"
    and "E < sum_list (scaled (rounded_table w) ks (Suc n))"
    and "sum_list (scaled (rounded_table w) ks n) \<le> E"
  shows "scale_up (rounded_table w) ks E 0 = Some (scaled (rounded_table w) ks (Suc n))"
proof (rule scale_up_first [OF assms(3)], intro allI impI)
  fix m assume "m < Suc n"
  then have "m \<le> n" by simp
  then have "sum_list (scaled (rounded_table w) ks m) \<le> sum_list (scaled (rounded_table w) ks n)"
    by (rule scaled_table_mono [OF assms(1) _ assms(2)])
  then show "sum_list (scaled (rounded_table w) ks m) \<le> E" using assms(4) by linarith
qed

lemmas table_eval = scaled_def arange_def rounded_table_def round_half_even_def upto.simps Let_def


lemma round_half_even_nonneg: "0 < q \<Longrightarrow> 0 \<le> p \<Longrightarrow> 0 \<le> round_half_even p q"
  using round_half_even_mono [of q 0 p] by (simp add: round_half_even_def)

lemma scaled_table_nonneg:
  assumes "\<forall>x\<in>set w. 0 \<le> x" "set ks \<subseteq> {1..int (length w)}"
  shows "\<forall>x\<in>set (scaled (rounded_table w) ks n). 0 \<le> x"
proof
  fix x assume "x \<in> set (scaled (rounded_table w) ks n)"
  then obtain j where j: "j \<in> set ks" "x = rounded_table w n j"
    by (auto simp: scaled_def)
  then have "1 \<le> j \<and> j \<le> int (length w)" using assms(2) by auto
  then have "1 \<le> j" "nat (j - 1) < length w" by linarith+
  then have "0 \<le> w ! nat (j - 1)" using assms(1) by simp
  then show "0 \<le> x" unfolding j(2) rounded_table_def
    by (intro round_half_even_nonneg) simp_all
qed

lemma trim_loop_cases:
  "\<exists>df' n ex. trim_loop df E pm it = (df', it + n, ex)
     \<and> sum_list df' = sum_list df - int n
     \<and> n \<le> length (np_where_eq df 1)
     \<and> (ex = Break \<longrightarrow> np_where_eq df' 1 = [] \<and> E < sum_list df')
     \<and> (E \<le> sum_list df \<longrightarrow> E \<le> sum_list df' \<and> (ex = Cond \<longrightarrow> sum_list df' = E))"
proof -
  consider "sum_list df \<le> E"
    | "E < sum_list df" "sum_list df - E \<le> int (length (np_where_eq df 1))"
    | "int (length (np_where_eq df 1)) < sum_list df - E"
    by linarith
  then show ?thesis
  proof cases
    case 1
    then have "trim_loop df E pm it = (df, it + 0, Cond)" by (simp add: trim_loop_idle)
    then show ?thesis using 1 by (intro exI [of _ df] exI [of _ 0] exI [of _ Cond]) simp
  next
    case 2
    then obtain df' where r: "trim_loop df E pm it = (df', it + nat (sum_list df - E), Cond)"
      "sum_list df' = E"
      using trim_loop_enough by blast
    show ?thesis
      using r 2
      by (intro exI [of _ df'] exI [of _ "nat (sum_list df - E)"] exI [of _ Cond]) simp
  next
    case 3
    then obtain df' where r: "trim_loop df E pm it = (df', it + length (np_where_eq df 1), Break)"
      "sum_list df' = sum_list df - int (length (np_where_eq df 1))" "np_where_eq df' 1 = []"
      using trim_loop_short by blast
    show ?thesis
      using r 3
      by (intro exI [of _ df'] exI [of _ "length (np_where_eq df 1)"] exI [of _ Break]) simp
  qed
qed

lemma arange_subset: "b - 1 \<le> n \<Longrightarrow> set (arange a b) \<subseteq> {a..n}"
  by (auto simp: arange_def)

lemma balance_spec:
  assumes "\<forall>n. \<forall>x\<in>set (scaled rnd k n). 0 \<le> x"
    and "E < sum_list (scaled rnd k m)"
  shows "\<exists>df0 df. scale_up rnd k E 0 = Some df0 \<and> balance rnd k E = Some df
     \<and> length df = length k \<and> (\<forall>x\<in>set df. 0 \<le> x) \<and> E \<le> sum_list df
     \<and> (sum_list df = E \<longleftrightarrow> sum_list df0 - E \<le> int (length (np_where_eq df0 1)))"
proof -
  obtain j where j: "scale_up rnd k E 0 = Some (scaled rnd k j)" "E < sum_list (scaled rnd k j)"
    using scale_up_search [of E rnd k m 0] assms(2) by auto
  define df0 where "df0 = scaled rnd k j"
  define df where "df = fst (trim_loop df0 E True 0)"
  have bal: "balance rnd k E = Some df"
    using j(1) by (simp add: balance_def df_def df0_def)
  have len: "length df = length k"
    by (simp add: df_def trim_loop_length df0_def scaled_length)
  have "\<forall>x\<in>set df0. 0 \<le> x" using assms(1) by (simp add: df0_def)
  then have nonneg: "\<forall>x\<in>set df. 0 \<le> x" unfolding df_def by (rule trim_loop_nonneg)
  have gt: "E < sum_list df0" using j(2) by (simp add: df0_def)
  have sum: "E \<le> sum_list df \<and> (sum_list df = E \<longleftrightarrow>
          sum_list df0 - E \<le> int (length (np_where_eq df0 1)))"
  proof (cases "sum_list df0 - E \<le> int (length (np_where_eq df0 1))")
    case True
    then show ?thesis using trim_loop_enough [OF gt True, of True 0] by (auto simp: df_def)
  next
    case False
    then have "int (length (np_where_eq df0 1)) < sum_list df0 - E" by simp
    then show ?thesis using trim_loop_short [of df0 E True 0] False by (auto simp: df_def)
  qed
  show ?thesis
    using j(1) bal len nonneg sum unfolding df0_def [symmetric]
    by (intro exI [of _ df0] exI [of _ df]) simp
qed

lemma scale_up_least:
  assumes "E < sum_list (scaled rnd ks m)"
  shows "\<exists>k\<le>m. scale_up rnd ks E 0 = Some (scaled rnd ks k) \<and> E < sum_list (scaled rnd ks k)
     \<and> (\<forall>j<k. sum_list (scaled rnd ks j) \<le> E)"
proof -
  define k where "k = (LEAST n. E < sum_list (scaled rnd ks n))"
  have k: "E < sum_list (scaled rnd ks k)" unfolding k_def using assms by (rule LeastI)
  have le: "k \<le> m" unfolding k_def using assms by (rule Least_le)
  have least: "\<forall>j<k. sum_list (scaled rnd ks j) \<le> E"
  proof (intro allI impI)
    fix j assume "j < k"
    then have "\<not> E < sum_list (scaled rnd ks j)" unfolding k_def by (rule not_less_Least)
    then show "sum_list (scaled rnd ks j) \<le> E" by simp
  qed
  have "scale_up rnd ks E 0 = Some (scaled rnd ks k)" by (rule scale_up_first [OF k least])
  then show ?thesis using k le least by blast
qed

lemma np_where_eq_snoc:
  "np_where_eq (df @ [x]) v = np_where_eq df v @ (if x = v then [length df] else [])"
proof -
  have "filter (\<lambda>i. (df @ [x]) ! i = v) [0..<length df] = filter (\<lambda>i. df ! i = v) [0..<length df]"
    by (rule filter_cong) (simp_all add: nth_append)
  then show ?thesis by (simp add: np_where_eq_def)
qed

lemma ones_count:
  "set df \<subseteq> {0, 1} \<Longrightarrow> sum_list df = int (length (np_where_eq df 1))"
proof (induction df rule: rev_induct)
  case Nil
  then show ?case by (simp add: np_where_eq_def)
next
  case (snoc x df)
  then show ?case by (auto simp: np_where_eq_snoc)
qed

lemma all_zero:
  fixes df :: "int list"
  assumes "\<forall>x\<in>set df. 0 \<le> x" "sum_list df \<le> 0"
  shows "df = replicate (length df) 0"
proof -
  have "sum_list df = 0" using assms sum_list_nonneg [of df] by force
  then have "\<forall>x\<in>set df. x = 0" using assms(1) by (simp add: sum_list_nonneg_eq_0_iff)
  then show ?thesis by (simp add: replicate_length_same)
qed

lemma balance_zero_surplus:
  assumes nonneg: "\<forall>n. \<forall>x\<in>set (scaled rnd ks n). 0 \<le> x"
    and start: "\<forall>x\<in>set (scaled rnd ks 0). x \<le> 0"
    and step: "\<forall>n. \<forall>j\<in>set ks. rnd (Suc n) j \<le> rnd n j + 1"
    and exit: "0 < sum_list (scaled rnd ks m)"
  shows "balance rnd ks 0 = Some (replicate (length ks) 0)"
proof -
  obtain k where k: "scale_up rnd ks 0 0 = Some (scaled rnd ks k)"
    "0 < sum_list (scaled rnd ks k)" "\<forall>j<k. sum_list (scaled rnd ks j) \<le> 0"
    using scale_up_least [OF exit] by blast
  have "sum_list (scaled rnd ks 0) \<le> 0" using start by (simp add: sum_list_nonpos)
  then have "k \<noteq> 0" using k(2) by (cases k) auto
  then obtain k' where k': "k = Suc k'" by (cases k) auto
  have prev: "scaled rnd ks k' = replicate (length ks) 0"
    using all_zero [of "scaled rnd ks k'"] nonneg k(3) k' by (simp add: scaled_length)
  have zero: "rnd k' j = 0" if "j \<in> set ks" for j
  proof -
    have "rnd k' j \<in> set (scaled rnd ks k')" using that by (simp add: scaled_def)
    then show ?thesis unfolding prev by simp
  qed
  have bits: "set (scaled rnd ks k) \<subseteq> {0, 1}"
  proof
    fix x assume x: "x \<in> set (scaled rnd ks k)"
    then obtain j where j: "j \<in> set ks" "x = rnd (Suc k') j" by (auto simp: scaled_def k')
    have "rnd (Suc k') j \<le> rnd k' j + 1" using step j(1) by blast
    then have "x \<le> 1" using zero [OF j(1)] j(2) by simp
    moreover have "0 \<le> x" using nonneg x by blast
    ultimately show "x \<in> {0, 1}" by auto
  qed
  obtain df0 df where r: "scale_up rnd ks 0 0 = Some df0" "balance rnd ks 0 = Some df"
    "length df = length ks" "\<forall>x\<in>set df. 0 \<le> x"
    "sum_list df = 0 \<longleftrightarrow> sum_list df0 - 0 \<le> int (length (np_where_eq df0 1))"
    using balance_spec [OF nonneg exit] by blast
  have "df0 = scaled rnd ks k" using r(1) k(1) by simp
  then have "sum_list df = 0" using r(5) ones_count [OF bits] by simp
  then have "df = replicate (length ks) 0" using all_zero [OF r(4)] r(3) by simp
  then show ?thesis using r(2) by simp
qed

lemma round_half_even_step:
  assumes "0 < q" "0 \<le> a" "a < q"
  shows "round_half_even (p + a) q \<le> round_half_even p q + 1"
proof -
  define f where "f = p div q"
  define r where "r = p mod q"
  have r: "0 \<le> r" "r < q" "p = f * q + r" using assms(1) by (simp_all add: f_def r_def)
  have lo: "f \<le> round_half_even p q" by (simp add: round_half_even_def Let_def f_def)
  consider "r + a < q" | "q \<le> r + a" by linarith
  then show ?thesis
  proof cases
    case 1
    have "p + a = q * f + (r + a)" using r(3) by (simp add: algebra_simps)
    moreover have "0 \<le> r + a" using r(1) assms(2) by simp
    ultimately have "(p + a) div q = f" using 1 by (rule int_div_pos_eq)
    then have "round_half_even (p + a) q \<le> f + 1" by (simp add: round_half_even_def Let_def)
    then show ?thesis using lo by linarith
  next
    case 2
    have eq: "p + a = q * (f + 1) + (r + a - q)" using r(3) by (simp add: algebra_simps)
    have bounds: "0 \<le> r + a - q" "r + a - q < q" using 2 r(2) assms(3) by linarith+
    have d: "(p + a) div q = f + 1" using eq bounds by (rule int_div_pos_eq)
    have m: "(p + a) mod q = r + a - q" using eq bounds by (rule int_mod_pos_eq)
    show ?thesis
    proof (cases "round_half_even p q = f")
      case True
      then have "2 * r \<le> q" unfolding round_half_even_def Let_def f_def [symmetric] r_def [symmetric]
        by (auto split: if_splits)
      then have "2 * r + 2 * a < 3 * q" using assms(3) by simp
      then have "2 * (r + a - q) < q" by (simp add: algebra_simps)
      then have "round_half_even (p + a) q = f + 1"
        by (simp add: round_half_even_def Let_def d m)
      then show ?thesis using True by simp
    next
      case False
      then have "f + 1 \<le> round_half_even p q" using lo by linarith
      moreover have "round_half_even (p + a) q \<le> f + 2"
        by (simp add: round_half_even_def Let_def d)
      ultimately show ?thesis by linarith
    qed
  qed
qed

lemma rounded_table_step:
  assumes "0 \<le> w ! nat (j - 1)" "w ! nat (j - 1) < 1000000000"
  shows "rounded_table w (Suc n) j \<le> rounded_table w n j + 1"
proof -
  have "w ! nat (j - 1) * (900 + int (Suc n)) = w ! nat (j - 1) * (900 + int n) + w ! nat (j - 1)"
    by (simp add: algebra_simps)
  then show ?thesis
    unfolding rounded_table_def using round_half_even_step [OF _ assms] by simp
qed

section \<open>Facts about the zigzag assembly and the filling\<close>

lemma np_get_in_range: "0 \<le> i \<Longrightarrow> i < int (length xs) \<Longrightarrow> np_get xs i = Inr (xs ! nat i)"
  by (simp add: np_get_def np_index_def)

lemma py_range_up:
  assumes "0 < N" "even N"
  shows "py_range 0 N 2 = map (\<lambda>j. 2 * int j) [0..<nat (N div 2)]"
    and "py_range 1 (N + 1) 2 = map (\<lambda>j. 2 * int j + 1) [0..<nat (N div 2)]"
proof -
  have "(N + 1) div 2 = N div 2" "(1 + N) div 2 = N div 2" using assms by presburger+
  then show "py_range 0 N 2 = map (\<lambda>j. 2 * int j) [0..<nat (N div 2)]"
    "py_range 1 (N + 1) 2 = map (\<lambda>j. 2 * int j + 1) [0..<nat (N div 2)]"
    by (simp_all add: py_range_def add.commute)
qed

lemma py_range_down:
  assumes "0 < N" "even N"
  shows "py_range (N - 1) 0 (- 2) = map (\<lambda>j. N - 1 - 2 * int j) [0..<nat (N div 2)]"
    and "py_range N 1 (- 2) = map (\<lambda>j. N - 2 * int j) [0..<nat (N div 2)]"
proof -
  have "(N - 1 + 2 - 1) div 2 = N div 2" "(N - 1 + 2 - 1) div 2 = N div 2" by simp_all
  then show "py_range (N - 1) 0 (- 2) = map (\<lambda>j. N - 1 - 2 * int j) [0..<nat (N div 2)]"
    "py_range N 1 (- 2) = map (\<lambda>j. N - 2 * int j) [0..<nat (N div 2)]"
    by (simp_all add: py_range_def)
qed

lemma extend_lines_spec:
  assumes "\<forall>i\<in>set idxs. 0 \<le> i \<and> i < int (length d)"
  shows "extend_lines d idxs traj
     = Inr (traj @ concat (map (\<lambda>i. replicate (nat (d ! nat i)) (i + 1)) idxs))"
  using assms
proof (induction idxs arbitrary: traj)
  case Nil
  then show ?case by simp
next
  case (Cons i idxs)
  then have "np_get d i = Inr (d ! nat i)" by (simp add: np_get_in_range)
  then show ?case using Cons by simp
qed

lemma zigzag_script_spec:
  assumes "0 < N" "even N" "length df = nat N"
  shows "zigzag_script N (map (\<lambda>x. 1 + x) df) = Inr (zigzag_spec N df)"
proof -
  let ?d = "map (\<lambda>x. 1 + x) df"
  let ?h = "nat (N div 2)"
  have h: "2 * int ?h = N" using assms by auto
  have up: "\<forall>i\<in>set (map (\<lambda>j. 2 * int j) [0..<?h]). 0 \<le> i \<and> i < int (length ?d)"
    using assms h by auto
  have down: "\<forall>i\<in>set (map (\<lambda>j. N - 1 - 2 * int j) [0..<?h]). 0 \<le> i \<and> i < int (length ?d)"
    using assms h by auto
  have nth_up: "?d ! nat (2 * int j) = 1 + df ! nat (2 * int j + 1 - 1)" if "j < ?h" for j
    using that assms h by (subst nth_map) auto
  have nth_down: "?d ! nat (N - 1 - 2 * int j) = 1 + df ! nat (N - 2 * int j - 1)" if "j < ?h" for j
  proof -
    have e: "N - 2 * int j - 1 = N - 1 - 2 * int j" by simp
    have "nat (N - 1 - 2 * int j) < length df" using that assms h by auto
    then have "?d ! nat (N - 1 - 2 * int j) = 1 + df ! nat (N - 1 - 2 * int j)" by simp
    then show ?thesis unfolding e .
  qed
  have c1: "concat (map (\<lambda>i. replicate (nat (?d ! nat i)) (i + 1)) (map (\<lambda>j. 2 * int j) [0..<?h]))
      = concat (map (\<lambda>k. replicate (nat (1 + df ! nat (k - 1))) k) (odd_lines N))"
    unfolding odd_lines_def map_map comp_def
    by (rule arg_cong [where f = concat], rule map_cong) (simp_all add: nth_up)
  have c2: "concat (map (\<lambda>i. replicate (nat (?d ! nat i)) (i + 1))
        (map (\<lambda>j. N - 1 - 2 * int j) [0..<?h]))
      = concat (map (\<lambda>k. replicate (nat (1 + df ! nat (k - 1))) k) (even_lines N))"
    unfolding even_lines_def map_map comp_def
    by (rule arg_cong [where f = concat], rule map_cong) (simp_all add: nth_down)
  show ?thesis
    unfolding zigzag_script_def py_range_up(1) [OF assms(1,2)] py_range_down(1) [OF assms(1,2)]
      extend_lines_spec [OF up] extend_lines_spec [OF down]
    by (simp add: c1 c2 zigzag_spec_def del: map_map)
qed


lemma lines_range:
  assumes "0 < N" "even N"
  shows "set (odd_lines N @ even_lines N) \<subseteq> {1..N}"
proof -
  have "2 * int (nat (N div 2)) = N" using assms by auto
  then show ?thesis by (auto simp: odd_lines_def even_lines_def)
qed

lemma concat_replicate_set: "set (concat (map (\<lambda>k. replicate (n k) k) ls)) \<subseteq> set ls"
  by (induction ls) auto

lemma zigzag_spec_range:
  assumes "0 < N" "even N"
  shows "set (zigzag_spec N r) \<subseteq> {- (N div 2)..N div 2 - 1}"
proof
  fix v assume "v \<in> set (zigzag_spec N r)"
  then obtain k where k0: "v = k - (N div 2 + 1)"
    "k \<in> set (concat (map (\<lambda>k. replicate (nat (1 + r ! nat (k - 1))) k)
        (odd_lines N @ even_lines N)))"
    unfolding zigzag_spec_def by (auto simp del: map_append)
  then have k: "k \<in> set (odd_lines N @ even_lines N)" "v = k - (N div 2 + 1)"
    using concat_replicate_set [of "\<lambda>k. nat (1 + r ! nat (k - 1))" "odd_lines N @ even_lines N"]
    by auto
  then have "1 \<le> k \<and> k \<le> N" using lines_range [OF assms] by auto
  moreover have "2 * (N div 2) = N" using assms by auto
  ultimately show "v \<in> {- (N div 2)..N div 2 - 1}" using k(2) by auto
qed

lemma sum_even_odd:
  fixes f :: "nat \<Rightarrow> int"
  shows "(\<Sum>j<h. f (2 * j)) + (\<Sum>j<h. f (2 * j + 1)) = (\<Sum>i<2 * h. f i)"
  by (induction h) simp_all

lemma sum_list_lines:
  fixes g :: "int \<Rightarrow> int"
  assumes "0 < N" "even N"
  shows "sum_list (map g (odd_lines N @ even_lines N)) = (\<Sum>i<nat N. g (int i + 1))"
proof -
  let ?h = "nat (N div 2)"
  have h: "2 * int ?h = N" "nat N = 2 * ?h" using assms by auto
  have "sum_list (map g (odd_lines N)) = (\<Sum>j<?h. g (int (2 * j) + 1))"
    by (simp add: odd_lines_def comp_def interv_sum_list_conv_sum_set_nat atLeast0LessThan)
  moreover have "sum_list (map g (even_lines N)) = (\<Sum>j<?h. g (int (2 * j + 1) + 1))"
  proof -
    have "sum_list (map g (even_lines N)) = (\<Sum>j<?h. g (N - 2 * int j))"
      by (simp add: even_lines_def comp_def interv_sum_list_conv_sum_set_nat atLeast0LessThan)
    also have "\<dots> = (\<Sum>j<?h. g (int (2 * (?h - Suc j) + 1) + 1))"
    proof (rule sum.cong)
      fix j assume "j \<in> {..<?h}"
      then have "N - 2 * int j = int (2 * (?h - Suc j) + 1) + 1" using h(1) by auto
      then show "g (N - 2 * int j) = g (int (2 * (?h - Suc j) + 1) + 1)" by simp
    qed simp
    also have "\<dots> = (\<Sum>j<?h. g (int (2 * j + 1) + 1))"
      by (rule sum.nat_diff_reindex [where g = "\<lambda>j. g (int (2 * j + 1) + 1)"])
    finally show ?thesis .
  qed
  ultimately show ?thesis
    using sum_even_odd [of "\<lambda>i. g (int i + 1)" ?h] h(2) by simp
qed

lemma zigzag_spec_length:
  assumes "0 < N" "even N" "length df = nat N" "\<forall>x\<in>set df. 0 \<le> x"
  shows "int (length (zigzag_spec N df)) = N + sum_list df"
proof -
  let ?ls = "odd_lines N @ even_lines N"
  have "int (length (zigzag_spec N df))
      = sum_list (map (\<lambda>k. int (nat (1 + df ! nat (k - 1)))) ?ls)"
    unfolding zigzag_spec_def
    by (simp add: length_concat comp_def sum_list_of_nat [symmetric] del: map_append)
  also have "\<dots> = (\<Sum>i<nat N. int (nat (1 + df ! nat (int i + 1 - 1))))"
    by (rule sum_list_lines [OF assms(1,2)])
  also have "\<dots> = (\<Sum>i<nat N. 1 + df ! i)"
  proof (rule sum.cong)
    fix i assume "i \<in> {..<nat N}"
    then have "0 \<le> df ! i" using assms(3,4) by simp
    then show "int (nat (1 + df ! nat (int i + 1 - 1))) = 1 + df ! i" by simp
  qed simp
  also have "\<dots> = N + sum_list df"
    using assms(1,3) by (simp add: sum.distrib sum_list_sum_nth atLeast0LessThan)
  finally show ?thesis .
qed


lemma slice_fill_eq:
  assumes "length xs = n" "slice_bound n lo = a" "slice_bound n hi = b"
  shows "slice_fill xs lo hi v = (if a < b then take a xs @ replicate (b - a) v @ drop b xs else xs)"
  using assms by (simp add: slice_fill_def Let_def)

lemma slice_fill_step:
  assumes "length init = n" "0 \<le> c"
  shows "slice_fill (take n S @ drop (length S) init) (int (length S)) (int (length S) + c) v
     = take n (S @ replicate (nat c) v) @ drop (length S + nat c) init"
proof -
  let ?xs = "take n S @ drop (length S) init"
  have len: "length ?xs = n" using assms(1) by auto
  show ?thesis
  proof (cases "n \<le> length S")
    case True
    then have "slice_bound n (int (length S)) = n" "slice_bound n (int (length S) + c) = n"
      using assms(2) by (simp_all add: slice_bound_def)
    then have "slice_fill ?xs (int (length S)) (int (length S) + c) v = ?xs"
      by (simp only: slice_fill_eq [OF len] if_False less_irrefl)
    then show ?thesis using True assms(1) by simp
  next
    case short: False
    then have lo: "slice_bound n (int (length S)) = length S"
      by (simp add: slice_bound_def)
    have hi: "slice_bound n (int (length S) + c) = min (length S + nat c) n"
      using assms(2) by (simp add: slice_bound_def min_def) linarith
    have xs: "?xs = S @ drop (length S) init" using short by simp
    show ?thesis
    proof (cases "c = 0")
      case True
      then have "slice_fill ?xs (int (length S)) (int (length S) + c) v = ?xs"
        by (simp only: slice_fill_eq [OF len lo lo] if_False less_irrefl add_0_right)
      then show ?thesis using True short by simp
    next
      case c: False
      then have lt: "length S < min (length S + nat c) n" using short assms(2) by simp
      have "slice_fill ?xs (int (length S)) (int (length S) + c) v
          = take (length S) ?xs @ replicate (min (length S + nat c) n - length S) v
            @ drop (min (length S + nat c) n) ?xs"
        using lt by (simp only: slice_fill_eq [OF len lo hi] if_True)
      also have "take (length S) ?xs = S" unfolding xs by simp
      also have "drop (min (length S + nat c) n) ?xs = drop (length S + nat c) init"
      proof (cases "length S + nat c \<le> n")
        case True
        then show ?thesis unfolding xs by (simp add: min_def add.commute)
      next
        case False
        then show ?thesis unfolding xs using assms(1) short by (simp add: min_def add.commute)
      qed
      also have "S @ replicate (min (length S + nat c) n - length S) v
            @ drop (length S + nat c) init
          = take n (S @ replicate (nat c) v) @ drop (length S + nat c) init"
        using short by (auto simp: min_def)
      finally show ?thesis .
    qed
  qed
qed

lemma fill_lines_spec:
  assumes "length init = n" "\<forall>k\<in>set ks. 1 \<le> k \<and> k \<le> int (length d)" "\<forall>c\<in>set d. 0 \<le> c"
  shows "fill_lines d ks (take n S @ drop (length S) init) (int (length S))
     = Inr (take n (S @ concat (map (\<lambda>k. replicate (nat (d ! nat (k - 1))) k) ks))
              @ drop (length (S @ concat (map (\<lambda>k. replicate (nat (d ! nat (k - 1))) k) ks))) init,
            int (length (S @ concat (map (\<lambda>k. replicate (nat (d ! nat (k - 1))) k) ks))))"
  using assms(2)
proof (induction ks arbitrary: S)
  case Nil
  then show ?case by simp
next
  case (Cons k ks)
  then have k: "0 \<le> k - 1" "k - 1 < int (length d)" by auto
  then have get: "np_get d (k - 1) = Inr (d ! nat (k - 1))" by (simp add: np_get_in_range)
  have c: "0 \<le> d ! nat (k - 1)" using k assms(3) by simp
  let ?S = "S @ replicate (nat (d ! nat (k - 1))) k"
  have step: "slice_fill (take n S @ drop (length S) init) (int (length S))
        (int (length S) + d ! nat (k - 1)) k = take n ?S @ drop (length ?S) init"
    using slice_fill_step [OF assms(1) c, of S k] by simp
  have cnt: "int (length S) + d ! nat (k - 1) = int (length ?S)" using c by simp
  have step': "slice_fill (take n S @ drop (length S) init) (int (length S))
        (int (length ?S)) k = take n ?S @ drop (length ?S) init"
    by (simp only: cnt [symmetric] step)
  have "fill_lines d (k # ks) (take n S @ drop (length S) init) (int (length S))
      = fill_lines d ks (take n ?S @ drop (length ?S) init) (int (length ?S))"
    by (simp only: fill_lines.simps get sum.case cnt step')
  also have "\<dots> = Inr (take n (?S @ concat (map (\<lambda>k. replicate (nat (d ! nat (k - 1))) k) ks))
              @ drop (length (?S @ concat (map (\<lambda>k. replicate (nat (d ! nat (k - 1))) k) ks))) init,
            int (length (?S @ concat (map (\<lambda>k. replicate (nat (d ! nat (k - 1))) k) ks))))"
    using Cons.prems by (intro Cons.IH) simp
  finally show ?case by simp
qed


lemma lines_concat_cong:
  assumes "0 < N" "even N" "length df = nat N" "set ls \<subseteq> {1..N}"
  shows "concat (map (\<lambda>k. replicate (nat (map (\<lambda>x. 1 + x) df ! nat (k - 1))) k) ls)
     = concat (map (\<lambda>k. replicate (nat (1 + df ! nat (k - 1))) k) ls)"
proof (rule arg_cong [where f = concat], rule map_cong)
  fix k assume "k \<in> set ls"
  then have "nat (k - 1) < length df" using assms(3,4) by auto
  then show "replicate (nat (map (\<lambda>x. 1 + x) df ! nat (k - 1))) k
      = replicate (nat (1 + df ! nat (k - 1))) k" by simp
qed simp

lemma map_take_drop:
  "map f (take n A @ drop (length A) I) = take n (map f A) @ map f (drop (length (map f A)) I)"
  by (simp add: take_map)

lemma zigzag_fn_spec:
  assumes "0 < N" "even N" "length df = nat N" "\<forall>x\<in>set df. 0 \<le> x"
  shows "zigzag_fn uninit N L (map (\<lambda>x. 1 + x) df)
     = Inr (take (nat L) (zigzag_spec N df)
            @ map (\<lambda>v. v - N div 2 - 1)
                (drop (length (zigzag_spec N df)) (map uninit [0..<nat L])))"
proof -
  let ?d = "map (\<lambda>x. 1 + x) df"
  let ?init = "map uninit [0..<nat L]"
  let ?rep = "\<lambda>k. replicate (nat (?d ! nat (k - 1))) k"
  let ?up = "concat (map ?rep (odd_lines N))"
  let ?all = "?up @ concat (map ?rep (even_lines N))"
  have len: "length ?init = nat L" by simp
  have rng: "set (odd_lines N) \<subseteq> {1..N}" "set (even_lines N) \<subseteq> {1..N}"
    using lines_range [OF assms(1,2)] by auto
  have odd: "\<forall>k\<in>set (odd_lines N). 1 \<le> k \<and> k \<le> int (length ?d)"
    using rng(1) assms(1,3) by auto
  have even: "\<forall>k\<in>set (even_lines N). 1 \<le> k \<and> k \<le> int (length ?d)"
    using rng(2) assms(1,3) by auto
  have pos: "\<forall>c\<in>set ?d. 0 \<le> c" using assms(4) by auto
  have first: "fill_lines ?d (odd_lines N) ?init 0
      = Inr (take (nat L) ?up @ drop (length ?up) ?init, int (length ?up))"
    using fill_lines_spec [OF len odd pos, of "[]"] by simp
  have second: "fill_lines ?d (even_lines N) (take (nat L) ?up @ drop (length ?up) ?init)
        (int (length ?up))
      = Inr (take (nat L) ?all @ drop (length ?all) ?init, int (length ?all))"
    by (rule fill_lines_spec [OF len even pos])
  have all: "?all = concat (map (\<lambda>k. replicate (nat (1 + df ! nat (k - 1))) k)
      (odd_lines N @ even_lines N))"
    using lines_concat_cong [OF assms(1-3) rng(1)] lines_concat_cong [OF assms(1-3) rng(2)]
    by simp
  have spec: "zigzag_spec N df = map (\<lambda>v. v - N div 2 - 1) ?all"
    unfolding all zigzag_spec_def by (simp add: diff_diff_eq)
  have "zigzag_fn uninit N L ?d
      = Inr (map (\<lambda>v. v - N div 2 - 1) (take (nat L) ?all @ drop (length ?all) ?init))"
    unfolding zigzag_fn_def py_range_up(2) [OF assms(1,2)] py_range_down(2) [OF assms(1,2)]
      odd_lines_def [symmetric] even_lines_def [symmetric]
    by (simp only: first second sum.case prod.case)
  also have "map (\<lambda>v. v - N div 2 - 1) (take (nat L) ?all @ drop (length ?all) ?init)
      = take (nat L) (zigzag_spec N df)
        @ map (\<lambda>v. v - N div 2 - 1) (drop (length (zigzag_spec N df)) ?init)"
    unfolding spec by (rule map_take_drop)
  finally show ?thesis .
qed

lemma sum_list_update_int:
  fixes xs :: "int list"
  shows "i < length xs \<Longrightarrow> sum_list (xs[i := v]) = sum_list xs - xs ! i + v"
  by (induction xs arbitrary: i) (auto simp: nth_Cons split: nat.splits)

lemma fill_script_spec:
  assumes "0 < N" "even N"
    and "\<forall>s\<in>set samples. 0 \<le> s \<and> s < int (length traj)"
    and "\<forall>t\<in>set traj. - (N div 2) \<le> t \<and> t \<le> N div 2 - 1"
    and "length filling = nat N"
  shows "\<exists>counts. fill_script traj N samples filling = Inr counts
     \<and> length counts = nat N
     \<and> sum_list counts = sum_list filling + int (length samples)
     \<and> (\<forall>i<nat N. filling ! i \<le> counts ! i)"
  using assms(3,5)
proof (induction samples arbitrary: filling)
  case Nil
  then show ?case by simp
next
  case (Cons s samples)
  then have s: "0 \<le> s" "s < int (length traj)" by simp_all
  then have get: "np_get traj s = Inr (traj ! nat s)" by (simp add: np_get_in_range)
  have "traj ! nat s \<in> set traj" using s by simp
  then have t: "- (N div 2) \<le> traj ! nat s" "traj ! nat s \<le> N div 2 - 1"
    using assms(4) by simp_all
  have N: "2 * (N div 2) = N" using assms(1,2) by auto
  let ?index = "traj ! nat s + N div 2"
  have idx: "0 \<le> ?index" "?index < N" using t N by linarith+
  then have lt: "nat ?index < length filling" using Cons.prems(2) by simp
  let ?f = "filling[nat ?index := filling ! nat ?index + 1]"
  have step: "fill_script traj N (s # samples) filling = fill_script traj N samples ?f"
    using idx by (simp add: get Let_def)
  have "length ?f = nat N" using Cons.prems(2) by simp
  then obtain counts where c: "fill_script traj N samples ?f = Inr counts"
    "length counts = nat N" "sum_list counts = sum_list ?f + int (length samples)"
    "\<forall>i<nat N. ?f ! i \<le> counts ! i"
    using Cons.IH [of ?f] Cons.prems(1) by auto
  have "sum_list ?f = sum_list filling + 1" using lt by (simp add: sum_list_update_int)
  moreover have "\<forall>i<nat N. filling ! i \<le> ?f ! i"
    using lt by (simp add: nth_list_update)
  ultimately show ?case
    using c step by (intro exI [of _ counts]) (auto intro: order_trans)
qed

lemma np_index_in_range: "0 \<le> i \<Longrightarrow> i < int n \<Longrightarrow> np_index n i = Inr (nat i)"
  by (simp add: np_index_def)

lemma fill_fn_spec:
  assumes "0 < N" "even N"
    and "\<forall>s\<in>set samples. 0 \<le> s \<and> s < int (length traj)"
    and "\<forall>t\<in>set traj. - (N div 2) \<le> t \<and> t \<le> N div 2 - 1"
    and "length filling = nat N"
  shows "\<exists>counts. fill_fn traj N samples filling = Inr counts
     \<and> length counts = nat N
     \<and> sum_list counts = sum_list filling + int (length samples)
     \<and> (\<forall>i<nat N. filling ! i \<le> counts ! i)"
  using assms(3,5)
proof (induction samples arbitrary: filling)
  case Nil
  then show ?case by simp
next
  case (Cons s samples)
  then have s: "0 \<le> s" "s < int (length traj)" by simp_all
  then have get: "np_get traj s = Inr (traj ! nat s)" by (simp add: np_get_in_range)
  have "traj ! nat s \<in> set traj" using s by simp
  then have t: "- (N div 2) \<le> traj ! nat s" "traj ! nat s \<le> N div 2 - 1"
    using assms(4) by simp_all
  have N: "2 * (N div 2) = N" using assms(1,2) by auto
  let ?index = "traj ! nat s + N div 2"
  have idx: "0 \<le> ?index" "?index < int (length filling)"
    using t N Cons.prems(2) assms(1) by linarith+
  then have lt: "nat ?index < length filling" by simp
  let ?f = "filling[nat ?index := filling ! nat ?index + 1]"
  have step: "fill_fn traj N (s # samples) filling = fill_fn traj N samples ?f"
    by (simp add: get np_index_in_range [OF idx])
  have "length ?f = nat N" using Cons.prems(2) by simp
  then obtain counts where c: "fill_fn traj N samples ?f = Inr counts"
    "length counts = nat N" "sum_list counts = sum_list ?f + int (length samples)"
    "\<forall>i<nat N. ?f ! i \<le> counts ! i"
    using Cons.IH [of ?f] Cons.prems(1) by auto
  have "sum_list ?f = sum_list filling + 1" using lt by (simp add: sum_list_update_int)
  moreover have "\<forall>i<nat N. filling ! i \<le> ?f ! i"
    using lt by (simp add: nth_list_update)
  ultimately show ?case
    using c step by (intro exI [of _ counts]) (auto intro: order_trans)
qed

lemma sum_list_divide:
  fixes T :: rat
  shows "sum_list (map (\<lambda>c. of_int c / T) xs) = of_int (sum_list xs) / T"
  by (induction xs) (simp_all add: add_divide_distrib)

lemma normalise_spec:
  assumes "0 < sum_list counts" "\<forall>c\<in>set counts. 0 \<le> c"
  shows "\<exists>h. normalise counts = Some h
     \<and> h = map (\<lambda>c. of_int c / of_int (sum_list counts)) counts
     \<and> sum_list h = 1 \<and> (\<forall>x\<in>set h. 0 \<le> x) \<and> length h = length counts"
proof -
  let ?h = "map (\<lambda>c. of_int c / of_int (sum_list counts)) counts :: rat list"
  have "normalise counts = Some ?h" using assms(1) by (simp add: normalise_def)
  moreover have "sum_list ?h = 1" using assms(1) by (simp add: sum_list_divide)
  moreover have "\<forall>x\<in>set ?h. 0 \<le> x" using assms by auto
  ultimately show ?thesis by simp
qed

lemma counts_nonneg:
  assumes "length counts = n" "\<forall>i<n. replicate n (0::int) ! i \<le> counts ! i"
  shows "\<forall>c\<in>set counts. 0 \<le> c"
proof
  fix c assume "c \<in> set counts"
  then obtain i where "i < n" "counts ! i = c" using assms(1) by (auto simp: in_set_conv_nth)
  then show "0 \<le> c" using assms(2) by auto
qed

lemma calculate_target_gauss:
  assumes "0 < N" "even N" "0 < L" "even L" "0 < sigma" "even sigma"
  shows "calculate_target N L sigma ''gauss'' = Inr (L - N, arange 1 (N + 1))"
    and "kspace_target N L sigma ''gauss'' = Inr (L - N, arange 1 (N + 1))"
  using assms
  by (simp_all add: calculate_target_def kspace_target_def mustBePosEvenInt_def
      must_be_pos_even_int_def py_lower_def lower_char_def even_iff_mod_2_eq_zero)

text \<open>What a run on a valid configuration computes up to the trajectory.\<close>

lemma cartesian_run:
  assumes "0 < N" "even N" "N \<le> L"
    and "\<forall>n. \<forall>x\<in>set (scaled rnd (arange 1 (N + 1)) n). 0 \<le> x"
    and "L - N < sum_list (scaled rnd (arange 1 (N + 1)) m)"
  shows "\<exists>df. balance rnd (arange 1 (N + 1)) (L - N) = Some df
     \<and> length df = nat N \<and> (\<forall>x\<in>set df. 0 \<le> x) \<and> L - N \<le> sum_list df
     \<and> zigzag_script N (map (\<lambda>x. 1 + x) df) = Inr (zigzag_spec N df)
     \<and> zigzag_fn uninit N L (map (\<lambda>x. 1 + x) df) = Inr (take (nat L) (zigzag_spec N df))
     \<and> int (length (zigzag_spec N df)) = N + sum_list df
     \<and> set (zigzag_spec N df) \<subseteq> {- (N div 2)..N div 2 - 1}"
proof -
  obtain df0 df where r: "balance rnd (arange 1 (N + 1)) (L - N) = Some df"
    "length df = length (arange 1 (N + 1))" "\<forall>x\<in>set df. 0 \<le> x" "L - N \<le> sum_list df"
    using balance_spec [OF assms(4,5)] by blast
  have len: "length df = nat N" using r(2) by (simp add: arange_length)
  have spec_len: "int (length (zigzag_spec N df)) = N + sum_list df"
    by (rule zigzag_spec_length [OF assms(1,2) len r(3)])
  then have "nat L \<le> length (zigzag_spec N df)" using r(4) by linarith
  then have "drop (length (zigzag_spec N df)) (map uninit [0..<nat L]) = []" by simp
  then have fn: "zigzag_fn uninit N L (map (\<lambda>x. 1 + x) df) = Inr (take (nat L) (zigzag_spec N df))"
    using zigzag_fn_spec [OF assms(1,2) len r(3), of uninit L] by simp
  show ?thesis
    using r(1,3,4) len spec_len fn zigzag_script_spec [OF assms(1,2) len]
      zigzag_spec_range [OF assms(1,2), of df]
    by (intro exI [of _ df]) simp
qed

lemma buckets_in_range:
  fixes N :: int
  assumes "0 < N" "even N"
    and "\<forall>s\<in>set samples. 0 \<le> s \<and> s < int (length traj)"
    and "set traj \<subseteq> {- (N div 2)..N div 2 - 1}"
  shows "\<forall>s\<in>set samples. \<exists>t. np_get traj s = Inr t \<and> 0 \<le> t + N div 2 \<and> t + N div 2 < N"
proof
  fix s assume "s \<in> set samples"
  then have s: "0 \<le> s" "s < int (length traj)" using assms(3) by simp_all
  then have "traj ! nat s \<in> set traj" by simp
  then have "- (N div 2) \<le> traj ! nat s \<and> traj ! nat s \<le> N div 2 - 1" using assms(4) by auto
  moreover have "2 * (N div 2) = N" using assms(1,2) by auto
  ultimately have "0 \<le> traj ! nat s + N div 2 \<and> traj ! nat s + N div 2 < N" by linarith
  then show "\<exists>t. np_get traj s = Inr t \<and> 0 \<le> t + N div 2 \<and> t + N div 2 < N"
    using s by (simp add: np_get_in_range)
qed

lemma histogram_spec:
  assumes "length counts = nat N" "sum_list counts = 0 + int (length samples)"
    "\<forall>i<nat N. replicate (nat N) 0 ! i \<le> counts ! i" "samples \<noteq> []"
  shows "\<exists>h. normalise counts = Some h
     \<and> h = map (\<lambda>c. of_int c / of_int (int (length samples))) counts
     \<and> sum_list h = 1 \<and> (\<forall>x\<in>set h. 0 \<le> x)"
proof -
  have pos: "0 < sum_list counts" using assms(2,4) by simp
  have nonneg: "\<forall>c\<in>set counts. 0 \<le> c" by (rule counts_nonneg [OF assms(1,3)])
  show ?thesis using normalise_spec [OF pos nonneg] assms(2) by auto
qed

lemma montecarlo_script:
  assumes "0 < N" "even N"
    and "\<forall>s\<in>set samples. 0 \<le> s \<and> s < int (length traj)"
    and "set traj \<subseteq> {- (N div 2)..N div 2 - 1}"
    and "samples \<noteq> []"
  shows "\<exists>counts h. fill_script traj N samples (replicate (nat N) 0) = Inr counts
     \<and> sum_list counts = int (length samples)
     \<and> normalise counts = Some h
     \<and> h = map (\<lambda>c. of_int c / of_int (int (length samples))) counts
     \<and> sum_list h = 1 \<and> (\<forall>x\<in>set h. 0 \<le> x)"
proof -
  have rng: "\<forall>t\<in>set traj. - (N div 2) \<le> t \<and> t \<le> N div 2 - 1" using assms(4) by auto
  obtain counts where c: "fill_script traj N samples (replicate (nat N) 0) = Inr counts"
    "length counts = nat N" "sum_list counts = sum_list (replicate (nat N) 0) + int (length samples)"
    "\<forall>i<nat N. replicate (nat N) 0 ! i \<le> counts ! i"
    using fill_script_spec [OF assms(1,2,3) rng, of "replicate (nat N) 0"] by auto
  have sum: "sum_list counts = 0 + int (length samples)" using c(3) by (simp add: sum_list_replicate)
  obtain h where "normalise counts = Some h"
    "h = map (\<lambda>c. of_int c / of_int (int (length samples))) counts"
    "sum_list h = 1" "\<forall>x\<in>set h. 0 \<le> x"
    using histogram_spec [OF c(2) sum c(4) assms(5)] by blast
  then show ?thesis using c(1) sum by (intro exI [of _ counts] exI [of _ h]) simp
qed

lemma montecarlo_fn:
  assumes "0 < N" "even N"
    and "\<forall>s\<in>set samples. 0 \<le> s \<and> s < int (length traj)"
    and "set traj \<subseteq> {- (N div 2)..N div 2 - 1}"
    and "samples \<noteq> []"
  shows "\<exists>counts h. fill_fn traj N samples (replicate (nat N) 0) = Inr counts
     \<and> sum_list counts = int (length samples)
     \<and> normalise counts = Some h
     \<and> h = map (\<lambda>c. of_int c / of_int (int (length samples))) counts
     \<and> sum_list h = 1 \<and> (\<forall>x\<in>set h. 0 \<le> x)"
proof -
  have rng: "\<forall>t\<in>set traj. - (N div 2) \<le> t \<and> t \<le> N div 2 - 1" using assms(4) by auto
  obtain counts where c: "fill_fn traj N samples (replicate (nat N) 0) = Inr counts"
    "length counts = nat N" "sum_list counts = sum_list (replicate (nat N) 0) + int (length samples)"
    "\<forall>i<nat N. replicate (nat N) 0 ! i \<le> counts ! i"
    using fill_fn_spec [OF assms(1,2,3) rng, of "replicate (nat N) 0"] by auto
  have sum: "sum_list counts = 0 + int (length samples)" using c(3) by (simp add: sum_list_replicate)
  obtain h where "normalise counts = Some h"
    "h = map (\<lambda>c. of_int c / of_int (int (length samples))) counts"
    "sum_list h = 1" "\<forall>x\<in>set h. 0 \<le> x"
    using histogram_spec [OF c(2) sum c(4) assms(5)] by blast
  then show ?thesis using c(1) sum by (intro exI [of _ counts] exI [of _ h]) simp
qed

section \<open>Worked configurations\<close>

text \<open>
  Two configurations with \<open>sigma = 2\<close>. The weights \<open>1 / (2 sqrt (2 pi)) * exp (- (k - c)^2 / 8)\<close>
  in millionths are \<open>26995, 64759, 120985, 176033, 199471, 176033, 120985, 64759\<close> for
  \<open>targetKspaceSize = 8\<close> (centre 5) and \<open>176033, 199471\<close> for \<open>targetKspaceSize = 2\<close>
  (centre 2). For size 8 and length 10 the scale-up loop stops at \<open>incr = 2.841\<close>; for
  size 2 and length 6 it stops at \<open>incr = 12.534\<close> with the vector \<open>[2, 3]\<close>, which has
  no entry equal to 1.
\<close>

lemma scale_up_8_10_2:
  "scale_up (rounded_table [26995, 64759, 120985, 176033, 199471, 176033, 120985, 64759])
     (arange 1 9) 2 0
     = Some [0, 0, 0, 1, 1, 1, 0, 0]"
proof -
  let ?w = "[26995, 64759, 120985, 176033, 199471, 176033, 120985, 64759] :: int list"
  have "scaled (rounded_table ?w) (arange 1 9) (Suc 1940) = [0, 0, 0, 1, 1, 1, 0, 0]"
    by (simp add: table_eval)
  moreover have "scaled (rounded_table ?w) (arange 1 9) 1940 = [0, 0, 0, 0, 1, 0, 0, 0]"
    by (simp add: table_eval)
  ultimately show ?thesis
    using scale_up_table [of ?w "arange 1 9" 2 1940] by (simp add: arange_subset)
qed

lemma scale_up_2_6_2: "scale_up (rounded_table [176033, 199471]) (arange 1 3) 4 0 = Some [2, 3]"
proof -
  have "scaled (rounded_table [176033, 199471]) (arange 1 3) (Suc 11633) = [2, 3]"
    by (simp add: table_eval)
  moreover have "scaled (rounded_table [176033, 199471]) (arange 1 3) 11633 = [2, 2]"
    by (simp add: table_eval)
  ultimately show ?thesis
    using scale_up_table [of "[176033, 199471]" "arange 1 3" 4 11633] by (simp add: arange_subset)
qed

lemma balance_8_10_2:
  "balance (rounded_table [26995, 64759, 120985, 176033, 199471, 176033, 120985, 64759])
     (arange 1 9) 2 = Some [0, 0, 0, 0, 1, 1, 0, 0]"
  using scale_up_8_10_2
  by (simp add: balance_def trim_loop.simps np_where_eq_def zero_one_def)

lemma balance_2_6_2: "balance (rounded_table [176033, 199471]) (arange 1 3) 4 = Some [2, 3]"
  using scale_up_2_6_2
  by (simp add: balance_def trim_loop.simps np_where_eq_def zero_one_def)

lemma table_8_2_nonneg:
  "\<forall>n. \<forall>x\<in>set (scaled
      (rounded_table [26995, 64759, 120985, 176033, 199471, 176033, 120985, 64759])
      (arange 1 9) n). 0 \<le> x"
  by (intro allI scaled_table_nonneg) (simp_all add: arange_subset)

lemma table_8_2_exit:
  "2 < sum_list (scaled
      (rounded_table [26995, 64759, 120985, 176033, 199471, 176033, 120985, 64759])
      (arange 1 9) 1941)"
  by (simp add: table_eval)

lemmas run_eval = zigzag_script_def py_range_def np_get_def np_index_def upt_rec
  eval_nat_numeral normalise_def

lemma zigzag_fn_8_10:
  "zigzag_fn uninit 8 10 [1, 1, 1, 1, 2, 2, 1, 1] = Inr [-4, -2, 0, 0, 2, 3, 1, 1, -1, -3]"
proof -
  have "zigzag_spec 8 [0, 0, 0, 0, 1, 1, 0, 0] = [-4, -2, 0, 0, 2, 3, 1, 1, -1, -3]"
    by (simp add: zigzag_spec_def odd_lines_def even_lines_def upt_rec eval_nat_numeral)
  then show ?thesis
    using zigzag_fn_spec [of 8 "[0, 0, 0, 0, 1, 1, 0, 0]" uninit 10] by simp
qed

lemma LUT_8_10_2:
  "LUT_1D_Cartesian (rounded_table [26995, 64759, 120985, 176033, 199471, 176033, 120985, 64759])
     [0, 2, 9, 3] 8 10 ''gauss'' 2
   = Some (Inr ([-4, -2, 0, 0, 2, 3, 1, 1, -1, -3], Some [1 / 4, 1 / 4, 0, 0, 1 / 2, 0, 0, 0]))"
proof -
  have "calculate_target 8 10 2 ''gauss'' = Inr (2, arange 1 9)"
    using calculate_target_gauss(1) [of 8 10 2] by simp
  then show ?thesis
    by (simp add: LUT_1D_Cartesian_def balance_8_10_2 run_eval)
qed

lemma generate_8_10_2:
  assumes "py_lower shape = ''gauss''"
  shows "generate_cartesian_1d_trajectory
     (rounded_table [26995, 64759, 120985, 176033, 199471, 176033, 120985, 64759])
     uninit [0, 2, 9, 3] 8 10 2 shape
   = Some (Inr ([-4, -2, 0, 0, 2, 3, 1, 1, -1, -3], Some [1 / 4, 1 / 4, 0, 0, 1 / 2, 0, 0, 0]))"
proof -
  have "kspace_target 8 10 2 shape = Inr (2, arange 1 9)"
    using assms by (simp add: kspace_target_def must_be_pos_even_int_def)
  then show ?thesis
    by (simp add: generate_cartesian_1d_trajectory_def balance_8_10_2 zigzag_fn_8_10
        np_get_def np_index_def eval_nat_numeral normalise_def)
qed

text \<open>
  \<open>targetKspaceSize = 4\<close>, \<open>sigma = 2\<close> (centre 3): the weights in millionths are
  \<open>120985, 176033, 199471, 176033\<close>. Every product starts below one half at \<open>incr = 0.9\<close>
  and grows by less than one per step; the first entry to round to 1 is the centre, at
  \<open>incr = 2.507\<close>.
\<close>

lemma table_4_2_facts:
  "\<forall>n. \<forall>x\<in>set (scaled (rounded_table [120985, 176033, 199471, 176033]) (arange 1 5) n). 0 \<le> x"
  "\<forall>x\<in>set (scaled (rounded_table [120985, 176033, 199471, 176033]) (arange 1 5) 0). x \<le> 0"
  "\<forall>n. \<forall>j\<in>set (arange 1 5).
     rounded_table [120985, 176033, 199471, 176033] (Suc n) j
       \<le> rounded_table [120985, 176033, 199471, 176033] n j + 1"
  "0 < sum_list (scaled (rounded_table [120985, 176033, 199471, 176033]) (arange 1 5) 1607)"
proof -
  let ?w = "[120985, 176033, 199471, 176033] :: int list"
  show "\<forall>n. \<forall>x\<in>set (scaled (rounded_table ?w) (arange 1 5) n). 0 \<le> x"
    by (intro allI scaled_table_nonneg) (simp_all add: arange_subset)
  show "\<forall>x\<in>set (scaled (rounded_table ?w) (arange 1 5) 0). x \<le> 0"
    by (simp add: table_eval)
  show "0 < sum_list (scaled (rounded_table ?w) (arange 1 5) 1607)"
    by (simp add: table_eval)
  show "\<forall>n. \<forall>j\<in>set (arange 1 5). rounded_table ?w (Suc n) j \<le> rounded_table ?w n j + 1"
  proof (intro allI ballI)
    fix n j assume "j \<in> set (arange 1 5)"
    then have "j = 1 \<or> j = 2 \<or> j = 3 \<or> j = 4" by (auto simp: arange_def)
    then have "0 \<le> ?w ! nat (j - 1) \<and> ?w ! nat (j - 1) < 1000000000" by auto
    then show "rounded_table ?w (Suc n) j \<le> rounded_table ?w n j + 1"
      by (intro rounded_table_step) simp_all
  qed
qed

lemma zigzag_fn_2_6:
  "zigzag_fn uninit 2 6 (map (\<lambda>x. 1 + x) [2, 3]) = Inr [-1, -1, -1, 0, 0, 0]"
proof -
  have "zigzag_spec 2 [2, 3] = [-1, -1, -1, 0, 0, 0, 0]"
    by (simp add: zigzag_spec_def odd_lines_def even_lines_def upt_rec eval_nat_numeral)
  then show ?thesis
    using zigzag_fn_spec [of 2 "[2, 3]" uninit 6] by (simp add: eval_nat_numeral)
qed

section \<open>Facts about the spokes and the spiral clean-up\<close>

lemma spoke_unique_set: "set (spoke_unique seen ps) = set ps - set seen"
  by (induction ps arbitrary: seen) auto

lemma inside_ellipse_origin: "inside_ellipse dimy dimz (0, 0)"
  by (simp add: inside_ellipse_def)

lemma spoke_inside_set:
  "set (spoke_inside raster order dimy dimz n)
     = {pt \<in> set (raster n). inside_ellipse dimy dimz pt}"
  by (auto simp: spoke_inside_def spoke_unique_set)

lemma spoke_inside_nonempty:
  assumes "(0, 0) \<in> set (raster n)"
  shows "spoke_inside raster order dimy dimz n \<noteq> []"
proof -
  have "(0, 0) \<in> set (spoke_inside raster order dimy dimz n)"
    using assms by (simp add: spoke_inside_set inside_ellipse_origin)
  then show ?thesis by auto
qed

lemma spoke_loop_returns:
  assumes centre: "\<forall>n. (0, 0) \<in> set (raster (Suc n))"
  shows "int (length ks) \<le> dimy * dimz \<Longrightarrow> \<forall>p\<in>set ks. inside_ellipse dimy dimz p \<Longrightarrow>
     \<exists>ks' n'. spoke_loop raster order dimy dimz ks n = Some (ks', n')
       \<and> int (length ks') = dimy * dimz \<and> (\<forall>p\<in>set ks'. inside_ellipse dimy dimz p)"
proof (induction "nat (dimy * dimz) - length ks" arbitrary: ks n rule: less_induct)
  case less
  let ?new = "ks @ spoke_inside raster order dimy dimz (Suc n)"
  have inside: "\<forall>p\<in>set ?new. inside_ellipse dimy dimz p"
    using less.prems(2) by (auto simp: spoke_inside_set)
  show ?case
  proof (cases "int (length ks) < dimy * dimz")
    case False
    then have "spoke_loop raster order dimy dimz ks n = Some (ks, n)"
      by (subst spoke_loop.simps) simp
    moreover have "int (length ks) = dimy * dimz" using False less.prems(1) by simp
    ultimately show ?thesis using less.prems(2) by simp
  next
    case True
    show ?thesis
    proof (cases "dimy * dimz < int (length ?new)")
      case over: True
      have "spoke_loop raster order dimy dimz ks n = Some (take (nat (dimy * dimz)) ?new, Suc n)"
        using True over by (subst spoke_loop.simps) simp
      moreover have "int (length (take (nat (dimy * dimz)) ?new)) = dimy * dimz"
        using over True by simp
      moreover have "\<forall>p\<in>set (take (nat (dimy * dimz)) ?new). inside_ellipse dimy dimz p"
        using inside set_take_subset [of "nat (dimy * dimz)" ?new] by blast
      ultimately show ?thesis by blast
    next
      case fits: False
      have step: "spoke_loop raster order dimy dimz ks n
          = spoke_loop raster order dimy dimz ?new (Suc n)"
        using True fits by (subst spoke_loop.simps) simp
      have "spoke_inside raster order dimy dimz (Suc n) \<noteq> []"
        using centre by (intro spoke_inside_nonempty) simp
      then have "length ks < length ?new" by simp
      then have less': "nat (dimy * dimz) - length ?new < nat (dimy * dimz) - length ks"
        using True by linarith
      have le: "int (length ?new) \<le> dimy * dimz" using fits by simp
      show ?thesis
        using less.hyps [OF less' le inside, of "Suc n"] step by simp
    qed
  qed
qed

lemma keep_changes_length: "length (keep_changes prev ps) \<le> length ps"
  by (induction ps arbitrary: prev) (auto intro: le_SucI)

lemma compact_pass_Inr:
  assumes "ks \<noteq> []"
  shows "\<exists>c. compact_pass ks = Inr c \<and> c \<noteq> [] \<and> length c \<le> length ks"
  using assms keep_changes_length by (cases ks) auto

lemma remove_repeats_Inr:
  "ks \<noteq> [] \<Longrightarrow> \<exists>c. remove_repeats n ks = Inr c \<and> c \<noteq> [] \<and> length c \<le> length ks"
proof (induction n arbitrary: ks)
  case 0
  then show ?case by simp
next
  case (Suc n)
  then obtain c where c: "compact_pass ks = Inr c" "c \<noteq> []" "length c \<le> length ks"
    using compact_pass_Inr by blast
  then obtain c' where "remove_repeats n c = Inr c'" "c' \<noteq> []" "length c' \<le> length c"
    using Suc.IH by blast
  then show ?case using c by auto
qed

lemma remove_repeats_empty: "remove_repeats (Suc n) [] = Inl IndexError"
  by simp

lemma np_delete_length: "length (np_delete xs idxs) \<le> length xs"
proof -
  have "length (np_delete xs idxs) \<le> length (enumerate 0 xs)"
    unfolding np_delete_def by (simp del: length_enumerate)
  then show ?thesis by simp
qed

lemma prune_origin_length: "length (prune_origin ks) \<le> length ks"
  by (simp add: prune_origin_def np_delete_length)

lemma spiral_cleanup_length:
  assumes "raw \<noteq> []" "0 \<le> dimy * dimz * reps"
  shows "\<exists>compacted out. remove_repeats 100 raw = Inr compacted
     \<and> spiral_cleanup raw dimy dimz reps = Inr out
     \<and> int (length out) = min (int (length (prune_origin compacted))) (dimy * dimz * reps)
     \<and> length out \<le> length raw"
proof -
  obtain c where c: "remove_repeats 100 raw = Inr c" "length c \<le> length raw"
    using remove_repeats_Inr [OF assms(1)] by blast
  let ?out = "take (slice_bound (length (prune_origin c)) (dimy * dimz * reps)) (prune_origin c)"
  have out: "spiral_cleanup raw dimy dimz reps = Inr ?out"
    by (simp add: spiral_cleanup_def c(1))
  have "int (length ?out) = min (int (length (prune_origin c))) (dimy * dimz * reps)"
    using assms(2) by (auto simp: slice_bound_def min_def)
  moreover have "length ?out \<le> length raw"
    using prune_origin_length [of c] c(2) by simp
  ultimately show ?thesis using c(1) out by blast
qed

lemma keep_changes_replicate: "keep_changes x (replicate m x) = []"
  by (induction m) simp_all

lemma remove_repeats_single: "remove_repeats n [x] = Inr [x]"
  by (induction n) simp_all

lemma remove_repeats_replicate: "remove_repeats (Suc n) (replicate (Suc m) x) = Inr [x]"
  by (simp add: keep_changes_replicate remove_repeats_single)

lemmas plane_eval = spoke_inside_def inside_ellipse_def raster_3x3_def prune_origin_def
  origin_where_def np_delete_def enumerate_eq_zip upt_rec slice_bound_def power2_eq_square

lemma spoke_loop_3x3:
  "spoke_loop raster_3x3 1 3 3 [] 0
     = Some ([(-1, 0), (0, 0), (1, 0), (1, 1), (0, 0), (-1, -1), (-1, -1), (0, 0), (1, 1)], 3)"
  apply (subst spoke_loop.simps, simp add: plane_eval)
  apply (subst spoke_loop.simps, simp add: plane_eval)
  apply (subst spoke_loop.simps, simp add: plane_eval)
  apply (subst spoke_loop.simps, simp add: plane_eval eval_nat_numeral)
  done

lemma analyse_Inr:
  assumes "analyse ys zs dimy dimz ks = Inr c"
  shows "numUnique c = card (set ks)" "numTotal c = length ks"
    "numEllipticalPoints c = length (filter (inside_ellipse dimy dimz) (List.product ys zs))"
    "0 < numUnique c" "0 < numEllipticalPoints c"
    "avgSamplesPerPoint c = of_nat (numTotal c) / of_nat (numUnique c)"
    "coveredFraction c = 100 * (of_nat (numUnique c) / of_nat (numEllipticalPoints c))"
  using assms
  by (auto simp: analyse_def Let_def length_remdups_card_conv card_gt_0_iff split: if_splits)

lemma analyse_returns:
  assumes "ks \<noteq> []" "\<exists>p\<in>set (List.product ys zs). inside_ellipse dimy dimz p"
  shows "\<exists>c. analyse ys zs dimy dimz ks = Inr c"
proof -
  have "remdups ks \<noteq> []" using assms(1) by simp
  moreover have "filter (inside_ellipse dimy dimz) (List.product ys zs) \<noteq> []"
    using assms(2) by (simp add: filter_empty_conv)
  ultimately show ?thesis by (simp add: analyse_def Let_def)
qed

lemma unique_le_mask:
  assumes "\<forall>p\<in>set ks. p \<in> set (List.product ys zs) \<and> inside_ellipse dimy dimz p"
  shows "card (set ks) \<le> length (filter (inside_ellipse dimy dimz) (List.product ys zs))"
proof -
  have "set ks \<subseteq> set (filter (inside_ellipse dimy dimz) (List.product ys zs))"
    using assms by auto
  then have "card (set ks) \<le> card (set (filter (inside_ellipse dimy dimz) (List.product ys zs)))"
    by (intro card_mono) simp_all
  also have "\<dots> \<le> length (filter (inside_ellipse dimy dimz) (List.product ys zs))"
    by (rule card_length)
  finally show ?thesis .
qed

lemma analyse_spec:
  assumes "analyse ys zs dimy dimz ks = Inr c"
  shows "numUnique c \<le> numTotal c"
    and "(\<forall>p\<in>set ks. p \<in> set (List.product ys zs) \<and> inside_ellipse dimy dimz p)
      \<longrightarrow> (of_nat (numUnique c) / of_nat (numEllipticalPoints c) :: rat) \<le> 1
        \<and> coveredFraction c \<le> 100"
proof -
  note r = analyse_Inr [OF assms]
  show "numUnique c \<le> numTotal c" unfolding r(1,2) by (rule card_length)
  show "(\<forall>p\<in>set ks. p \<in> set (List.product ys zs) \<and> inside_ellipse dimy dimz p)
      \<longrightarrow> (of_nat (numUnique c) / of_nat (numEllipticalPoints c) :: rat) \<le> 1
        \<and> coveredFraction c \<le> 100"
  proof
    assume "\<forall>p\<in>set ks. p \<in> set (List.product ys zs) \<and> inside_ellipse dimy dimz p"
    then have "numUnique c \<le> numEllipticalPoints c"
      unfolding r(1,3) by (rule unique_le_mask)
    then have "(of_nat (numUnique c) / of_nat (numEllipticalPoints c) :: rat) \<le> 1"
      using r(5) by simp
    then show "(of_nat (numUnique c) / of_nat (numEllipticalPoints c) :: rat) \<le> 1
        \<and> coveredFraction c \<le> 100"
      unfolding r(7) by simp
  qed
qed

lemma in_grid:
  "(y, z) \<in> set (List.product (arange a b) (arange a' b'))
     \<longleftrightarrow> a \<le> y \<and> y < b \<and> a' \<le> z \<and> z < b'"
  by (auto simp: arange_set)

lemma grid_cells:
  assumes "\<forall>(y, z)\<in>set ks. a \<le> y \<and> y < b \<and> a' \<le> z \<and> z < b' \<and> P (y, z)"
  shows "\<forall>p\<in>set ks. p \<in> set (List.product (arange a b) (arange a' b')) \<and> P p"
proof
  fix p assume "p \<in> set ks"
  then have "case p of (y, z) \<Rightarrow> a \<le> y \<and> y < b \<and> a' \<le> z \<and> z < b' \<and> P (y, z)"
    using assms by blast
  then show "p \<in> set (List.product (arange a b) (arange a' b')) \<and> P p"
    by (cases p) (simp add: arange_set)
qed

lemmas coverage_eval = coverage_radial_def coverage_spiral_def analyse_def arange_def upto.simps
  inside_ellipse_def power2_eq_square


subsection \<open>Origin pruning\<close>


















section \<open>Facts about the density in double precision\<close>

text \<open>
  Rounding keeps integers and signs; a non-negative number below half the least subnormal
  \<open>2 ^ -1074\<close> rounds to zero, and \<open>exp (-1152)\<close> is such a number because \<open>2 \<le> exp 1\<close>.
\<close>

lemma rint_of_int: "rint (of_int n) = n"
  by (simp add: rint_def)

lemma rint_nonneg: "0 \<le> x \<Longrightarrow> 0 \<le> rint x"
  by (simp add: rint_def)

lemma rint_small:
  assumes "0 \<le> x" "x < 1 / 2"
  shows "rint x = 0"
proof -
  have "\<lfloor>x\<rfloor> = 0" using assms by (simp add: floor_eq_iff)
  then show ?thesis using assms by (simp add: rint_def)
qed

lemma ulp_pos: "0 < ulp x"
  by (simp add: ulp_def)

lemma float64_zero: "float64 0 = 0"
  by (simp add: float64_def rint_def)

lemma float64_nonneg: "0 \<le> x \<Longrightarrow> 0 \<le> float64 x"
  unfolding float64_def using ulp_pos [of x] rint_nonneg [of "x / ulp x"]
  by (simp add: zero_le_mult_iff)

lemma ulp_1152: "ulp (- 1152) = 2 powi (- 42)"
proof -
  have "\<lfloor>log 2 (1152 :: real)\<rfloor> = 10"
    by (subst floor_log_eq_powr_iff) (simp_all add: powr_numeral)
  then show ?thesis by (simp add: ulp_def)
qed

lemma float64_1152: "float64 (- 1152) = - 1152"
proof -
  have "(- 1152 :: real) / 2 powi (- 42) = of_int (- 1152 * 2 ^ 42)"
    by (simp add: power_int_minus field_simps)
  then have "rint ((- 1152 :: real) / 2 powi (- 42)) = - 1152 * 2 ^ 42"
    by (simp only: rint_of_int)
  then show ?thesis
    unfolding float64_def ulp_1152 by (simp add: power_int_minus)
qed

lemma exp_le_half_power: "exp (- real n) \<le> (1 / 2) ^ n"
proof -
  have "2 \<le> exp (1 :: real)" using exp_ge_add_one_self [of 1] by simp
  then have "exp (- 1 :: real) \<le> 1 / 2" by (simp add: exp_minus field_simps)
  then have "exp (- 1 :: real) ^ n \<le> (1 / 2) ^ n" by (intro power_mono) simp_all
  then show ?thesis by (simp add: exp_of_nat_mult [symmetric])
qed


lemma log2_powi: "log 2 (2 powi n) = of_int n"
proof (cases "0 \<le> n")
  case True
  then show ?thesis by (simp add: power_int_def log_nat_power)
next
  case False
  then have "log 2 (inverse 2 ^ nat (- n)) = - real (nat (- n))"
    by (simp only: power_inverse log_inverse log_nat_power) simp
  then show ?thesis using False by (simp add: power_int_def)
qed

lemma ulp_subnormal:
  assumes "0 < x" "x < 2 powi (- 1022)"
  shows "ulp x = 2 powi (- 1074)"
proof -
  have "log 2 x < log 2 (2 powi (- 1022))" using assms by simp
  also have "log 2 (2 powi (- 1022)) = - 1022"
    using log2_powi [of "- 1022"] by (simp only: of_int_minus of_int_numeral)
  finally have "\<lfloor>log 2 x\<rfloor> \<le> - 1022" by (simp add: floor_le_iff)
  then have "max (- 1022) \<lfloor>log 2 x\<rfloor> - 52 = - 1074" by simp
  moreover have "\<bar>x\<bar> = x" using assms(1) by simp
  ultimately show ?thesis by (simp only: ulp_def)
qed

lemma float64_underflow:
  assumes "0 \<le> x" "x < 2 powi (- 1075)"
  shows "float64 x = 0"
proof (cases "x = 0")
  case True
  then show ?thesis by (simp add: float64_zero)
next
  case False
  then have pos: "0 < x" using assms(1) by simp
  have "(2 :: real) powi (- 1075) < 2 powi (- 1022)" by (simp add: power_int_minus)
  then have u: "ulp x = 2 powi (- 1074)" using pos assms(2) by (intro ulp_subnormal) simp_all
  have "x / 2 powi (- 1074) < 2 powi (- 1075) / 2 powi (- 1074)"
    using assms(2) by (simp add: divide_strict_right_mono)
  also have "(2 :: real) powi (- 1075) / 2 powi (- 1074) = 1 / 2"
    by (simp add: power_int_minus field_simps)
  finally have "rint (x / 2 powi (- 1074)) = 0"
    using pos by (intro rint_small) simp_all
  then show ?thesis by (simp add: float64_def u)
qed

lemma float64_exp_1152: "float64 (exp (- 1152)) = 0"
proof -
  have "exp (- real 1152) \<le> (1 / 2) ^ 1152" by (rule exp_le_half_power)
  also have "(1 / 2 :: real) ^ 1152 < 2 powi (- 1075)" by (simp add: power_int_minus power_one_over)
  finally show ?thesis by (intro float64_underflow) simp_all
qed

lemma gauss_underflow: "gauss 97 2 1 = 0"
proof -
  have "real_of_int (- ((1 - 97)\<^sup>2)) / real_of_int (2 * 2\<^sup>2) = - 1152" by simp
  then show ?thesis
    unfolding gauss_def by (simp only: float64_1152 float64_exp_1152 mult_zero_right float64_zero)
qed


lemma gauss_scale_nonneg: "0 < sigma \<Longrightarrow> 0 \<le> gauss_scale sigma"
  unfolding gauss_scale_def
  by (intro float64_nonneg divide_nonneg_nonneg mult_nonneg_nonneg real_sqrt_ge_zero) simp_all

lemma gauss_nonneg: "0 < sigma \<Longrightarrow> 0 \<le> gauss c sigma k"
  unfolding gauss_def
  by (intro float64_nonneg mult_nonneg_nonneg gauss_scale_nonneg) simp_all

lemma gauss_symmetric: "gauss c sigma (c - j) = gauss c sigma (c + j)"
  by (simp add: gauss_def power2_eq_square)

lemma density_length: "0 \<le> N \<Longrightarrow> length (density N sigma) = nat N"
  by (simp add: density_def arange_length)

lemma density_nth:
  assumes "1 \<le> k" "k \<le> N"
  shows "density N sigma ! nat (k - 1) = gauss (N div 2 + 1) sigma k"
proof -
  have "nat (k - 1) < length (arange 1 (N + 1))" using assms by (simp add: arange_length)
  moreover have "arange 1 (N + 1) ! nat (k - 1) = k"
    using assms by (simp add: arange_def)
  ultimately show ?thesis by (simp add: density_def)
qed

text \<open>
  The rounding error: \<open>float64 x\<close> differs from \<open>x\<close> by at most half a spacing, which is at
  most \<open>\<bar>x\<bar> * 2 ^ -53 + 2 ^ -1075\<close>; in the normal range a positive number keeps at least
  half its size. With \<open>2 \<le> \<pi> < 4\<close> and \<open>exp 1 \<le> 3\<close> this bounds the prefactor and the
  exponential from below as long as the exponent is at least \<open>-600\<close>, and an exponent of at
  most \<open>-1076\<close> makes the exponential underflow to zero.
\<close>

lemma rint_err: "\<bar>of_int (rint y) - y\<bar> \<le> 1 / 2"
proof -
  have "of_int \<lfloor>y\<rfloor> \<le> y" "y < of_int \<lfloor>y\<rfloor> + 1" by linarith+
  then show ?thesis by (auto simp: rint_def abs_le_iff)
qed

lemma float64_err: "\<bar>float64 x - x\<bar> \<le> ulp x / 2"
proof -
  have "float64 x - x = (of_int (rint (x / ulp x)) - x / ulp x) * ulp x"
    using ulp_pos [of x] by (simp add: float64_def field_simps)
  then have "\<bar>float64 x - x\<bar> = \<bar>of_int (rint (x / ulp x)) - x / ulp x\<bar> * ulp x"
    using ulp_pos [of x] by (simp add: abs_mult)
  also have "\<dots> \<le> 1 / 2 * ulp x"
    using rint_err [of "x / ulp x"] ulp_pos [of x] by (intro mult_right_mono) simp_all
  finally show ?thesis by simp
qed

lemma powi_floor_log:
  assumes "0 < x"
  shows "2 powi \<lfloor>log 2 x\<rfloor> \<le> x"
proof -
  have "2 powr of_int \<lfloor>log 2 x\<rfloor> \<le> 2 powr log 2 x" by (simp add: powr_mono)
  then show ?thesis using assms by (simp add: powr_real_of_int')
qed

lemma ulp_bound: "x \<noteq> 0 \<Longrightarrow> ulp x \<le> \<bar>x\<bar> * 2 powi (- 52) + 2 powi (- 1074)"
proof (cases "- 1022 \<le> \<lfloor>log 2 \<bar>x\<bar>\<rfloor>")
  case True
  assume "x \<noteq> 0"
  then have "2 powi \<lfloor>log 2 \<bar>x\<bar>\<rfloor> \<le> \<bar>x\<bar>" by (intro powi_floor_log) simp
  moreover have "ulp x = 2 powi \<lfloor>log 2 \<bar>x\<bar>\<rfloor> * 2 powi (- 52)"
    using True by (simp add: ulp_def max_def power_int_diff power_int_minus)
  moreover have "0 \<le> (2 :: real) powi (- 1074)" by simp
  ultimately show ?thesis
    using mult_right_mono [of "2 powi \<lfloor>log 2 \<bar>x\<bar>\<rfloor>" "\<bar>x\<bar>" "2 powi (- 52)"] by simp
next
  case False
  then have "max (- 1022) \<lfloor>log 2 \<bar>x\<bar>\<rfloor> - 52 = - 1074" by simp
  then have "ulp x = 2 powi (- 1074)" by (simp only: ulp_def)
  moreover have "0 \<le> \<bar>x\<bar> * 2 powi (- 52)" by simp
  ultimately show ?thesis by linarith
qed


lemma float64_rel: "\<bar>float64 x - x\<bar> \<le> \<bar>x\<bar> * 2 powi (- 53) + 2 powi (- 1075)"
proof (cases "x = 0")
  case True
  then show ?thesis by (simp add: float64_zero)
next
  case False
  have eq: "(\<bar>x\<bar> * 2 powi (- 52) + 2 powi (- 1074)) / 2 = \<bar>x\<bar> * 2 powi (- 53) + 2 powi (- 1075)"
    by (simp add: power_int_minus field_simps)
  have "ulp x / 2 \<le> (\<bar>x\<bar> * 2 powi (- 52) + 2 powi (- 1074)) / 2"
    using ulp_bound [OF False] by (rule divide_right_mono) simp
  then have "\<bar>float64 x - x\<bar> \<le> (\<bar>x\<bar> * 2 powi (- 52) + 2 powi (- 1074)) / 2"
    using float64_err [of x] by (rule order.trans [rotated])
  then show ?thesis by (simp only: eq)
qed

lemma float64_normal:
  assumes "2 powi (- 1022) \<le> x"
  shows "x / 2 \<le> float64 x" "float64 x \<le> 2 * x"
proof -
  have "(0 :: real) < 2 powi (- 1022)" by simp
  then have pos: "0 < x" using assms by (rule less_le_trans)
  have "(2 :: real) powi (- 1075) = 2 powi (- 1022) * 2 powi (- 53)"
    by (simp add: power_int_minus field_simps)
  also have "\<dots> \<le> x * 2 powi (- 53)" using assms by (intro mult_right_mono) simp_all
  finally have tiny: "2 powi (- 1075) \<le> x * 2 powi (- 53)" .
  have "x * 2 powi (- 53) \<le> x / 8" using pos by (simp add: power_int_minus field_simps)
  then have "\<bar>float64 x - x\<bar> \<le> x / 4"
    using float64_rel [of x] tiny pos by simp
  then show "x / 2 \<le> float64 x" "float64 x \<le> 2 * x" using pos by linarith+
qed


lemma small_le: "1 / 2 ^ 40 \<le> x \<Longrightarrow> 2 powi (- 1022) \<le> (x :: real)"
proof -
  assume a: "1 / 2 ^ 40 \<le> x"
  have "(2 :: real) powi (- 1022) \<le> 2 powi (- 40)" by (rule power_int_increasing) simp_all
  also have "(2 :: real) powi (- 40) = 1 / 2 ^ 40" by (simp add: power_int_minus field_simps)
  finally show ?thesis using a by (rule order.trans)
qed

lemma quarter_le: "1 / 4 \<le> x \<Longrightarrow> 2 powi (- 1022) \<le> (x :: real)"
  by (rule small_le) simp

lemma gauss_scale_pos:
  assumes "0 < sigma" "sigma \<le> 2 ^ 32"
  shows "1 / 2 ^ 39 \<le> gauss_scale sigma"
proof -
  define s :: real where "s = of_int sigma"
  have s: "1 \<le> s" "s \<le> 2 ^ 32" proof -
    have "1 \<le> sigma" using assms(1) by simp
    then show "1 \<le> s" unfolding s_def by simp
    have "real_of_int sigma \<le> real_of_int (2 ^ 32)" using assms(2) by (simp only: of_int_le_iff)
    then show "s \<le> 2 ^ 32" unfolding s_def by simp
  qed
  define p1 where "p1 = float64 pi"
  have "2 powi (- 1022) \<le> pi" using pi_ge_two by (intro quarter_le) linarith
  then have p1: "1 \<le> p1" "p1 \<le> 8"
    using float64_normal [of pi] pi_ge_two pi_less_4 unfolding p1_def by linarith+
  define p2 where "p2 = float64 (2 * p1)"
  have "2 powi (- 1022) \<le> 2 * p1" using p1 by (intro quarter_le) linarith
  then have p2: "1 \<le> p2" "p2 \<le> 32"
    using float64_normal [of "2 * p1"] p1 unfolding p2_def by linarith+
  define p3 where "p3 = float64 (sqrt p2)"
  have r: "1 \<le> sqrt p2" "sqrt p2 \<le> 6"
    using p2 by (simp_all add: real_le_rsqrt real_le_lsqrt)
  have "2 powi (- 1022) \<le> sqrt p2" using r by (intro quarter_le) linarith
  then have p3: "1 / 2 \<le> p3" "p3 \<le> 12"
    using float64_normal [of "sqrt p2"] r unfolding p3_def by linarith+
  define z where "z = float64 (s * p3)"
  have t: "1 / 2 \<le> s * p3" "s * p3 \<le> 2 ^ 32 * 12"
    using s p3 mult_mono [of 1 s "1 / 2" p3] mult_mono [of s "2 ^ 32" p3 12] by simp_all
  have "2 powi (- 1022) \<le> s * p3" using t by (intro quarter_le) linarith
  then have z: "1 / 4 \<le> z" "z \<le> 2 ^ 32 * 24"
    using float64_normal [of "s * p3"] t unfolding z_def by linarith+
  have u: "1 / (2 ^ 32 * 24) \<le> 1 / z" using z by (intro divide_left_mono) simp_all
  have "2 powi (- 1022) \<le> 1 / z" using u by (intro small_le) simp
  then have "1 / z / 2 \<le> float64 (1 / z)" by (rule float64_normal)
  then have "1 / 2 ^ 39 \<le> float64 (1 / z)" using u by simp
  then show ?thesis unfolding gauss_scale_def z_def s_def p3_def p2_def p1_def .
qed


lemma exp_ge_third_power: "(1 / 3) ^ n \<le> exp (- real n)"
proof -
  have "exp (real n) = exp 1 ^ n" using exp_of_nat_mult [of n 1] by simp
  also have "\<dots> \<le> 3 ^ n" using exp_le by (intro power_mono) simp_all
  finally have "1 / 3 ^ n \<le> 1 / exp (real n)" by (intro divide_left_mono) simp_all
  then show ?thesis by (simp add: exp_minus power_one_over inverse_eq_divide)
qed

lemma exp_601: "2 powi (- 953) \<le> exp (- 601 :: real)"
proof -
  have "(3 :: real) ^ 601 \<le> 2 ^ 953" by simp
  then have "1 / (2 :: real) ^ 953 \<le> 1 / 3 ^ 601" by (intro divide_left_mono) simp_all
  also have "1 / (3 :: real) ^ 601 = (1 / 3) ^ 601" by (simp only: power_one_over)
  also have "\<dots> \<le> exp (- real 601)" by (rule exp_ge_third_power)
  finally have "1 / (2 :: real) ^ 953 \<le> exp (- 601)" by simp
  moreover have "(2 :: real) powi (- 953) = 1 / 2 ^ 953"
    by (simp only: power_int_minus power_int_numeral inverse_eq_divide)
  ultimately show ?thesis by (simp only:)
qed

lemma powi_le_normal: "- 1022 \<le> n \<Longrightarrow> 2 powi n \<le> x \<Longrightarrow> 2 powi (- 1022) \<le> (x :: real)"
proof -
  assume "- 1022 \<le> n" "2 powi n \<le> x"
  moreover from this(1) have "(2 :: real) powi (- 1022) \<le> 2 powi n"
    by (intro power_int_increasing) simp_all
  ultimately show ?thesis by linarith
qed

lemma float64_normal_powi:
  assumes "- 1022 \<le> n" "2 powi n \<le> x"
  shows "2 powi (n - 1) \<le> float64 x"
proof -
  have "2 powi (- 1022) \<le> x" using assms by (rule powi_le_normal)
  then have "x / 2 \<le> float64 x" by (rule float64_normal)
  moreover have "(2 :: real) powi (n - 1) = 2 powi n / 2" by (simp add: power_int_diff)
  ultimately show ?thesis using assms(2) by linarith
qed


lemma exponent_bounds:
  assumes "0 < sigma"
  shows "(k - c)\<^sup>2 \<le> B * sigma\<^sup>2 \<Longrightarrow>
           - real_of_int B / 2 \<le> real_of_int (- ((k - c)\<^sup>2)) / real_of_int (2 * sigma\<^sup>2)"
    and "B * sigma\<^sup>2 \<le> (k - c)\<^sup>2 \<Longrightarrow>
           real_of_int (- ((k - c)\<^sup>2)) / real_of_int (2 * sigma\<^sup>2) \<le> - real_of_int B / 2"
    and "real_of_int (- ((k - c)\<^sup>2)) / real_of_int (2 * sigma\<^sup>2) \<le> 0"
proof -
  define X where "X = real_of_int ((k - c)\<^sup>2)"
  define S where "S = real_of_int (sigma\<^sup>2)"
  have S: "0 < S" using assms unfolding S_def by simp
  have X: "0 \<le> X" unfolding X_def by simp
  have a: "real_of_int (- ((k - c)\<^sup>2)) / real_of_int (2 * sigma\<^sup>2) = - X / (2 * S)"
    by (simp add: X_def S_def)
  show "real_of_int (- ((k - c)\<^sup>2)) / real_of_int (2 * sigma\<^sup>2) \<le> 0"
    unfolding a using S X by (simp add: divide_nonpos_pos)
  {
    assume "(k - c)\<^sup>2 \<le> B * sigma\<^sup>2"
    then have "real_of_int ((k - c)\<^sup>2) \<le> real_of_int (B * sigma\<^sup>2)" by (simp only: of_int_le_iff)
    then have "X \<le> real_of_int B * S" by (simp add: X_def S_def)
    then show "- real_of_int B / 2 \<le> real_of_int (- ((k - c)\<^sup>2)) / real_of_int (2 * sigma\<^sup>2)"
      unfolding a using S by (simp add: field_simps)
  }
  {
    assume "B * sigma\<^sup>2 \<le> (k - c)\<^sup>2"
    then have "real_of_int (B * sigma\<^sup>2) \<le> real_of_int ((k - c)\<^sup>2)" by (simp only: of_int_le_iff)
    then have "real_of_int B * S \<le> X" by (simp add: X_def S_def)
    then show "real_of_int (- ((k - c)\<^sup>2)) / real_of_int (2 * sigma\<^sup>2) \<le> - real_of_int B / 2"
      unfolding a using S by (simp add: field_simps)
  }
qed

lemma rounding_tiny: "(2 :: real) powi (- 1075) \<le> 1 / 4"
proof -
  have "(2 :: real) powi (- 1075) \<le> 2 powi (- 2)" by (rule power_int_increasing) simp_all
  then show ?thesis by (simp add: power_int_minus)
qed

lemma float64_near:
  assumes "\<bar>x\<bar> \<le> 2 ^ 50"
  shows "\<bar>float64 x - x\<bar> \<le> 1 / 2"
proof -
  have "\<bar>x\<bar> * 2 powi (- 53) \<le> 2 ^ 50 * 2 powi (- 53)"
    using assms by (intro mult_right_mono) simp_all
  also have "(2 :: real) ^ 50 * 2 powi (- 53) = 1 / 8" by (simp add: power_int_minus)
  finally show ?thesis using float64_rel [of x] rounding_tiny by linarith
qed

lemma gauss_pos:
  assumes "0 < sigma" "sigma \<le> 2 ^ 32" "(k - c)\<^sup>2 \<le> 1200 * sigma\<^sup>2"
  shows "0 < gauss c sigma k"
proof -
  define a where "a = real_of_int (- ((k - c)\<^sup>2)) / real_of_int (2 * sigma\<^sup>2)"
  have a: "- 600 \<le> a" "a \<le> 0"
    using exponent_bounds(1) [OF assms(1), of k c 1200] exponent_bounds(3) [OF assms(1), of k c] assms(3)
    unfolding a_def by simp_all
  then have "\<bar>a\<bar> \<le> 2 ^ 50" by simp
  then have "\<bar>float64 a - a\<bar> \<le> 1 / 2" by (rule float64_near)
  then have "- 601 \<le> float64 a" using a by linarith
  then have "exp (- 601) \<le> exp (float64 a)" by simp
  then have "2 powi (- 953) \<le> exp (float64 a)" using exp_601 by linarith
  then have E: "2 powi (- 953 - 1) \<le> float64 (exp (float64 a))"
    by (intro float64_normal_powi) simp_all
  have "(2 :: real) powi (- 39) = 1 / 2 ^ 39" by (simp add: power_int_minus field_simps)
  then have A: "2 powi (- 39) \<le> gauss_scale sigma"
    using gauss_scale_pos [OF assms(1,2)] by simp
  have "(2 :: real) powi (- 39 + (- 953 - 1)) = 2 powi (- 39) * 2 powi (- 953 - 1)"
    by (rule power_int_add) simp
  also have "\<dots> \<le> gauss_scale sigma * float64 (exp (float64 a))"
    using A E by (intro mult_mono) simp_all
  finally have "2 powi (- 39 + (- 953 - 1) - 1) \<le> gauss c sigma k"
    unfolding gauss_def a_def by (intro float64_normal_powi) simp_all
  moreover have "(0 :: real) < 2 powi (- 39 + (- 953 - 1) - 1)" by simp
  ultimately show ?thesis by (rule less_le_trans [rotated])
qed


lemma float64_exp_underflow:
  assumes "a \<le> - 1076"
  shows "float64 (exp (float64 a)) = 0"
proof -
  have "float64 a - a \<le> \<bar>a\<bar> * 2 powi (- 53) + 2 powi (- 1075)"
    using float64_rel [of a] by linarith
  moreover have "\<bar>a\<bar> * 2 powi (- 53) = - a / 2 ^ 53"
    using assms by (simp add: power_int_minus field_simps)
  ultimately have "float64 a \<le> a - a / 2 ^ 53 + 1 / 4" using rounding_tiny by linarith
  then have "float64 a < - real 1075" using assms by simp
  then have "exp (float64 a) < exp (- real 1075)" by (simp only: exp_less_cancel_iff)
  also have "\<dots> \<le> (1 / 2) ^ 1075" by (rule exp_le_half_power)
  also have "(1 / 2 :: real) ^ 1075 = 2 powi (- 1075)"
    by (simp only: power_int_minus power_int_numeral power_one_over inverse_eq_divide)
  finally show ?thesis by (intro float64_underflow) simp_all
qed

lemma gauss_zero:
  assumes "0 < sigma" "2152 * sigma\<^sup>2 \<le> (k - c)\<^sup>2"
  shows "gauss c sigma k = 0"
proof -
  have "real_of_int (- ((k - c)\<^sup>2)) / real_of_int (2 * sigma\<^sup>2) \<le> - real_of_int 2152 / 2"
    using assms(2) by (rule exponent_bounds(2) [OF assms(1)])
  then have "real_of_int (- ((k - c)\<^sup>2)) / real_of_int (2 * sigma\<^sup>2) \<le> - 1076" by simp
  then have "float64 (exp (float64 (real_of_int (- ((k - c)\<^sup>2)) / real_of_int (2 * sigma\<^sup>2)))) = 0"
    by (rule float64_exp_underflow)
  then show ?thesis unfolding gauss_def by (simp only: mult_zero_right float64_zero)
qed

section \<open>Claims about the balancer\<close>

text \<open>
  C10. The trimming loop is a total function: it returns for every vector \<open>df\<close>, surplus \<open>E\<close>
  and toggle \<open>pm\<close>. The result keeps the length, and each of its \<open>n\<close> iterations lowered
  the sum by exactly 1 (the body zeroes one entry equal to 1), so \<open>n\<close> is at most the
  number of entries equal to 1, at most \<open>sum - E\<close> when the loop is entered with
  \<open>E \<le> sum\<close> (the scale-up loop leaves \<open>E < sum\<close>), and at most the sum for a vector
  without negative entries. The sum never drops below \<open>E\<close>; it equals \<open>E\<close> when the loop
  ends on its condition, and on \<open>break\<close> no entry equals 1 and the sum is still above \<open>E\<close>.
\<close>

theorem trim_loop_terminates:
  "\<exists>df' n ex. trim_loop df E pm 0 = (df', n, ex)
     \<and> length df' = length df
     \<and> sum_list df' = sum_list df - int n
     \<and> n \<le> length (np_where_eq df 1)
     \<and> (ex = Break \<longrightarrow> np_where_eq df' 1 = [] \<and> E < sum_list df')
     \<and> (E \<le> sum_list df \<longrightarrow>
          int n \<le> sum_list df - E \<and> E \<le> sum_list df' \<and> (ex = Cond \<longrightarrow> sum_list df' = E))
     \<and> ((\<forall>x\<in>set df. 0 \<le> x) \<longrightarrow> int n \<le> sum_list df)
     \<and> (E < sum_list df \<and> np_where_eq df 1 \<noteq> [] \<longrightarrow>
          (\<exists>i<length df. df ! i = 1 \<and> zero_one df pm = df[i := 0])
          \<and> sum_list (zero_one df pm) = sum_list df - 1)"
proof -
  obtain df' n ex where r: "trim_loop df E pm 0 = (df', 0 + n, ex)"
    "sum_list df' = sum_list df - int n" "n \<le> length (np_where_eq df 1)"
    "ex = Break \<longrightarrow> np_where_eq df' 1 = [] \<and> E < sum_list df'"
    "E \<le> sum_list df \<longrightarrow> E \<le> sum_list df' \<and> (ex = Cond \<longrightarrow> sum_list df' = E)"
    using trim_loop_cases [of df E pm 0] by blast
  have len: "length df' = length df"
    using trim_loop_length [of df E pm 0] r(1) by simp
  have nonneg: "int n \<le> sum_list df" if "\<forall>x\<in>set df. 0 \<le> x"
  proof -
    have "\<forall>x\<in>set df'. 0 \<le> x" using trim_loop_nonneg [OF that, of E pm 0] r(1) by simp
    then have "0 \<le> sum_list df'" by (simp add: sum_list_nonneg)
    then show ?thesis using r(2) by linarith
  qed
  have step: "(\<exists>i<length df. df ! i = 1 \<and> zero_one df pm = df[i := 0])
      \<and> sum_list (zero_one df pm) = sum_list df - 1" if "np_where_eq df 1 \<noteq> []"
    using zero_one_index [OF that, of pm] zero_one_sum [OF that, of pm] by blast
  have bound: "int n \<le> sum_list df - E" if "E \<le> sum_list df"
    using r(2,5) that by linarith
  show ?thesis
    using r len nonneg step bound
    by (intro exI [of _ df'] exI [of _ n] exI [of _ ex]) simp
qed

theorem trim_loop_terminates_witness:
  "trim_loop [0, 0, 0, 1, 1, 1, 0, 0] 2 True 0 = ([0, 0, 0, 0, 1, 1, 0, 0], 1, Cond)
   \<and> trim_loop [2, 1, 3] 4 True 0 = ([2, 0, 3], 1, Break)"
  using trim_loop_terminates [of "[0, 0, 0, 1, 1, 1, 0, 0]" 2 True]
    trim_loop_terminates [of "[2, 1, 3]" 4 True]
  by (simp add: trim_loop.simps np_where_eq_def zero_one_def)

text \<open>
  What the balancer does for every table of rounded values: whenever some scaled vector
  sums to more than the surplus \<open>E = trajectoryLength - targetKspaceSize\<close> (so that the
  scale-up loop ends) and the rounded values are not negative, it returns a vector of length
  \<open>targetKspaceSize\<close> without negative entries whose sum is at least \<open>E\<close>; the sum is
  \<open>E\<close> if and only if the scaled-up vector \<open>df0\<close> had at least \<open>sum df0 - E\<close> entries equal
  to 1, and otherwise the trimming loop leaves through \<open>break\<close> with a sum above \<open>E\<close>.
\<close>

lemma balance_sum:
  assumes "\<forall>n. \<forall>x\<in>set (scaled rnd (arange 1 (targetKspaceSize + 1)) n). 0 \<le> x"
    and "trajectoryLength - targetKspaceSize
           < sum_list (scaled rnd (arange 1 (targetKspaceSize + 1)) m)"
  shows "\<exists>df0 df.
       scale_up rnd (arange 1 (targetKspaceSize + 1)) (trajectoryLength - targetKspaceSize) 0
         = Some df0
     \<and> balance rnd (arange 1 (targetKspaceSize + 1)) (trajectoryLength - targetKspaceSize)
         = Some df
     \<and> length df = nat targetKspaceSize
     \<and> (\<forall>x\<in>set df. 0 \<le> x)
     \<and> trajectoryLength - targetKspaceSize \<le> sum_list df
     \<and> (sum_list df = trajectoryLength - targetKspaceSize \<longleftrightarrow>
          sum_list df0 - (trajectoryLength - targetKspaceSize) \<le> int (length (np_where_eq df0 1)))"
proof -
  define E where "E = trajectoryLength - targetKspaceSize"
  define k where "k = arange 1 (targetKspaceSize + 1)"
  obtain df0 df where r: "scale_up rnd k E 0 = Some df0" "balance rnd k E = Some df"
    "length df = length k" "\<forall>x\<in>set df. 0 \<le> x" "E \<le> sum_list df"
    "sum_list df = E \<longleftrightarrow> sum_list df0 - E \<le> int (length (np_where_eq df0 1))"
    using balance_spec [of rnd k E m] assms unfolding E_def k_def by blast
  have "length k = nat targetKspaceSize" by (simp add: k_def arange_length)
  then show ?thesis
    using r unfolding E_def [symmetric] k_def [symmetric]
    by (intro exI [of _ df0] exI [of _ df]) simp
qed

text \<open>The run for \<open>targetKspaceSize = 8\<close>, \<open>trajectoryLength = 10\<close>, \<open>sigma = 2\<close> reaches the surplus.\<close>

lemma balance_sum_8_10_2:
  "balance (rounded_table [26995, 64759, 120985, 176033, 199471, 176033, 120985, 64759])
     (arange 1 (8 + 1)) (10 - 8) = Some [0, 0, 0, 0, 1, 1, 0, 0]
   \<and> sum_list [0, 0, 0, 0, 1, 1, 0, 0 :: int] = 10 - 8"
proof -
  let ?w = "[26995, 64759, 120985, 176033, 199471, 176033, 120985, 64759] :: int list"
  have nonneg: "\<forall>n. \<forall>x\<in>set (scaled (rounded_table ?w) (arange 1 9) n). 0 \<le> x"
    by (intro allI scaled_table_nonneg) (simp_all add: arange_subset)
  have "scaled (rounded_table ?w) (arange 1 9) 1941 = [0, 0, 0, 1, 1, 1, 0, 0]"
    by (simp add: table_eval)
  then have big: "10 - 8 < sum_list (scaled (rounded_table ?w) (arange 1 9) 1941)" by simp
  show ?thesis
    using balance_sum [of "rounded_table ?w" 8 10 1941] nonneg big scale_up_8_10_2
    by (simp add: balance_def trim_loop.simps np_where_eq_def zero_one_def)
qed

text \<open>
  C1. The repeat counts should sum to exactly \<open>trajectoryLength - targetKspaceSize\<close>
  (\<open>cartesian1Dtrajectory.py\<close>: "Discretise the density so sum df == extra_lines",
  "guaranteed length matching trajectory_length"). The code does not achieve it for the valid
  configuration \<open>targetKspaceSize = 2\<close>, \<open>trajectoryLength = 6\<close>, \<open>sigma = 2\<close>: the scale-up
  loop ends with \<open>[2, 3]\<close>, which has no entry equal to 1, so the trimming loop leaves at
  once through its \<open>break\<close> and the balancer returns \<open>[2, 3]\<close>, whose sum is 5 and not 4.
\<close>

theorem balance_overfill:
  "mustBePosEvenInt 2 = Inr () \<and> mustBePosEvenInt 6 = Inr ()
   \<and> must_be_pos_even_int 2 = Inr () \<and> must_be_pos_even_int 6 = Inr ()
   \<and> scale_up (rounded_table [176033, 199471]) (arange 1 (2 + 1)) (6 - 2) 0 = Some [2, 3]
   \<and> trim_loop [2, 3] (6 - 2) True 0 = ([2, 3], 0, Break)
   \<and> balance (rounded_table [176033, 199471]) (arange 1 (2 + 1)) (6 - 2) = Some [2, 3]
   \<and> sum_list [2, 3 :: int] \<noteq> 6 - 2"
  using scale_up_2_6_2
  by (simp add: balance_def mustBePosEvenInt_def must_be_pos_even_int_def trim_loop.simps
      np_where_eq_def zero_one_def)

section \<open>Claims about the assembled trajectory\<close>

text \<open>
  The assembled sequence for every valid configuration for which the scale-up loop ends:
  every value lies in \<open>[-targetKspaceSize/2, targetKspaceSize/2 - 1]\<close>; the sequence of
  \<open>LUT_1D_Cartesian.py\<close> has length \<open>targetKspaceSize\<close> plus the sum of the repeat counts,
  which is \<open>trajectoryLength\<close> if and only if the balancer reached the surplus; the array of
  \<open>generate_cartesian_1d_trajectory\<close> holds the first \<open>trajectory_length\<close> entries of that
  sequence.
\<close>

lemma zigzag_length_range:
  assumes "0 < targetKspaceSize" "even targetKspaceSize" "targetKspaceSize \<le> trajectoryLength"
    and "\<forall>n. \<forall>x\<in>set (scaled rnd (arange 1 (targetKspaceSize + 1)) n). 0 \<le> x"
    and "trajectoryLength - targetKspaceSize
           < sum_list (scaled rnd (arange 1 (targetKspaceSize + 1)) m)"
  shows "\<exists>df traj traj'.
       balance rnd (arange 1 (targetKspaceSize + 1)) (trajectoryLength - targetKspaceSize) = Some df
     \<and> zigzag_script targetKspaceSize (map (\<lambda>x. 1 + x) df) = Inr traj
     \<and> int (length traj) = targetKspaceSize + sum_list df
     \<and> trajectoryLength \<le> int (length traj)
     \<and> (int (length traj) = trajectoryLength
          \<longleftrightarrow> sum_list df = trajectoryLength - targetKspaceSize)
     \<and> set traj \<subseteq> {- (targetKspaceSize div 2)..targetKspaceSize div 2 - 1}
     \<and> zigzag_fn uninit targetKspaceSize trajectoryLength (map (\<lambda>x. 1 + x) df) = Inr traj'
     \<and> traj' = take (nat trajectoryLength) traj
     \<and> int (length traj') = trajectoryLength
     \<and> set traj' \<subseteq> {- (targetKspaceSize div 2)..targetKspaceSize div 2 - 1}"
proof -
  obtain df where r: "balance rnd (arange 1 (targetKspaceSize + 1))
        (trajectoryLength - targetKspaceSize) = Some df"
    "trajectoryLength - targetKspaceSize \<le> sum_list df"
    "zigzag_script targetKspaceSize (map (\<lambda>x. 1 + x) df) = Inr (zigzag_spec targetKspaceSize df)"
    "zigzag_fn uninit targetKspaceSize trajectoryLength (map (\<lambda>x. 1 + x) df)
       = Inr (take (nat trajectoryLength) (zigzag_spec targetKspaceSize df))"
    "int (length (zigzag_spec targetKspaceSize df)) = targetKspaceSize + sum_list df"
    "set (zigzag_spec targetKspaceSize df)
       \<subseteq> {- (targetKspaceSize div 2)..targetKspaceSize div 2 - 1}"
    using cartesian_run [OF assms, of uninit] by blast
  let ?traj = "zigzag_spec targetKspaceSize df"
  have long: "trajectoryLength \<le> int (length ?traj)" using r(2,5) by linarith
  have cut: "int (length (take (nat trajectoryLength) ?traj)) = trajectoryLength"
    using long assms(1,3) by simp
  have sub: "set (take (nat trajectoryLength) ?traj)
      \<subseteq> {- (targetKspaceSize div 2)..targetKspaceSize div 2 - 1}"
    using set_take_subset [of "nat trajectoryLength" ?traj] r(6) by blast
  have iff: "int (length ?traj) = trajectoryLength
      \<longleftrightarrow> sum_list df = trajectoryLength - targetKspaceSize"
    using r(5) by linarith
  show ?thesis
    using r(1,3,4,5,6) long cut sub iff
    by (intro exI [of _ df] exI [of _ ?traj] exI [of _ "take (nat trajectoryLength) ?traj"]) simp
qed

lemma zigzag_length_range_8_10_2:
  "zigzag_script 8 (map (\<lambda>x. 1 + x) [0, 0, 0, 0, 1, 1, 0, 0])
     = Inr [-4, -2, 0, 0, 2, 3, 1, 1, -1, -3]
   \<and> zigzag_fn (\<lambda>j. 0) 8 10 (map (\<lambda>x. 1 + x) [0, 0, 0, 0, 1, 1, 0, 0])
     = Inr [-4, -2, 0, 0, 2, 3, 1, 1, -1, -3]
   \<and> int (length [-4, -2, 0, 0, 2, 3, 1, 1, -1, -3 :: int]) = 10"
proof -
  let ?w = "[26995, 64759, 120985, 176033, 199471, 176033, 120985, 64759] :: int list"
  have k: "arange 1 (8 + 1) = arange 1 9" by simp
  obtain df traj traj' where r: "balance (rounded_table ?w) (arange 1 9) 2 = Some df"
    "zigzag_script 8 (map (\<lambda>x. 1 + x) df) = Inr traj"
    "zigzag_fn (\<lambda>j. 0) 8 10 (map (\<lambda>x. 1 + x) df) = Inr traj'"
    "traj' = take (nat 10) traj"
    using zigzag_length_range [of 8 10 "rounded_table ?w" 1941 "\<lambda>j. 0"]
      table_8_2_nonneg table_8_2_exit unfolding k by auto
  have df: "df = [0, 0, 0, 0, 1, 1, 0, 0]" using r(1) balance_8_10_2 by simp
  have script: "zigzag_script 8 (map (\<lambda>x. 1 + x) [0, 0, 0, 0, 1, 1, 0, 0])
      = Inr [-4, -2, 0, 0, 2, 3, 1, 1, -1, -3]"
    by (simp add: run_eval)
  then have traj: "traj = [-4, -2, 0, 0, 2, 3, 1, 1, -1, -3]" using r(2) unfolding df by simp
  have "traj' = [-4, -2, 0, 0, 2, 3, 1, 1, -1, -3]" unfolding r(4) traj by simp
  then show ?thesis using script r(3) unfolding df by simp
qed

text \<open>
  The order of the lines. For a positive even \<open>N\<close> and repeat counts \<open>r\<close> of length \<open>N\<close>, the sequence assembled by
  \<open>LUT_1D_Cartesian.py\<close> is exactly the sequence of the specification: the odd lines
  \<open>1, 3, ..., N - 1\<close> ascending, then the even lines \<open>N, N - 2, ..., 2\<close> descending, each
  line \<open>k\<close> repeated \<open>1 + r[k]\<close> times, with \<open>N/2 + 1\<close> subtracted. So is the sequence of
  \<open>generate_cartesian_1d_trajectory\<close> when the counts are not negative and
  \<open>N + sum r = trajectory_length\<close>, the invariant of a repeat-count vector. For \<open>N = 4\<close> and
  zero counts the sequence is \<open>[1, 3, 4, 2]\<close> minus the centre, \<open>[-2, 0, 1, -1]\<close>; and for
  \<open>targetKspaceSize = trajectoryLength = 4\<close> the balancer returns zero counts, for every
  rounding table whose entries are not negative, start at 0 and grow by at most 1 per step
  (the weights are at most 0.2 and the step of \<open>incr\<close> is 0.001).
\<close>

lemma zigzag_order:
  "(0 < N \<and> even N \<and> length r = nat N
      \<longrightarrow> zigzag_script N (map (\<lambda>x. 1 + x) r) = Inr (zigzag_spec N r))
   \<and> (0 < N \<and> even N \<and> length r = nat N \<and> (\<forall>x\<in>set r. 0 \<le> x) \<and> N + sum_list r = L
      \<longrightarrow> zigzag_fn uninit N L (map (\<lambda>x. 1 + x) r) = Inr (zigzag_spec N r))
   \<and> zigzag_spec 4 [0, 0, 0, 0] = map (\<lambda>v. v - (4 div 2 + 1)) [1, 3, 4, 2]
   \<and> zigzag_spec 4 [0, 0, 0, 0] = [-2, 0, 1, -1]
   \<and> ((\<forall>n. \<forall>x\<in>set (scaled rnd (arange 1 (4 + 1)) n). 0 \<le> x)
        \<and> (\<forall>x\<in>set (scaled rnd (arange 1 (4 + 1)) 0). x \<le> 0)
        \<and> (\<forall>n. \<forall>j\<in>set (arange 1 (4 + 1)). rnd (Suc n) j \<le> rnd n j + 1)
        \<and> 4 - 4 < sum_list (scaled rnd (arange 1 (4 + 1)) m)
      \<longrightarrow> balance rnd (arange 1 (4 + 1)) (4 - 4) = Some [0, 0, 0, 0])"
proof (intro conjI impI)
  assume "0 < N \<and> even N \<and> length r = nat N"
  then show "zigzag_script N (map (\<lambda>x. 1 + x) r) = Inr (zigzag_spec N r)"
    by (simp add: zigzag_script_spec)
next
  assume a: "0 < N \<and> even N \<and> length r = nat N \<and> (\<forall>x\<in>set r. 0 \<le> x) \<and> N + sum_list r = L"
  then have "int (length (zigzag_spec N r)) = L" by (simp add: zigzag_spec_length)
  then have "nat L = length (zigzag_spec N r)" by simp
  then show "zigzag_fn uninit N L (map (\<lambda>x. 1 + x) r) = Inr (zigzag_spec N r)"
    using a zigzag_fn_spec [of N r uninit L] by simp
next
  show "zigzag_spec 4 [0, 0, 0, 0] = map (\<lambda>v. v - (4 div 2 + 1)) [1, 3, 4, 2]"
    by (simp add: zigzag_spec_def odd_lines_def even_lines_def upt_rec eval_nat_numeral)
next
  show "zigzag_spec 4 [0, 0, 0, 0] = [-2, 0, 1, -1]"
    by (simp add: zigzag_spec_def odd_lines_def even_lines_def upt_rec eval_nat_numeral)
next
  assume a: "(\<forall>n. \<forall>x\<in>set (scaled rnd (arange 1 (4 + 1)) n). 0 \<le> x)
        \<and> (\<forall>x\<in>set (scaled rnd (arange 1 (4 + 1)) 0). x \<le> 0)
        \<and> (\<forall>n. \<forall>j\<in>set (arange 1 (4 + 1)). rnd (Suc n) j \<le> rnd n j + 1)
        \<and> 4 - 4 < sum_list (scaled rnd (arange 1 (4 + 1)) m)"
  then have "balance rnd (arange 1 (4 + 1)) 0 = Some (replicate (length (arange 1 (4 + 1))) 0)"
    by (intro balance_zero_surplus [where m = m]) simp_all
  then show "balance rnd (arange 1 (4 + 1)) (4 - 4) = Some [0, 0, 0, 0]"
    by (simp add: arange_length eval_nat_numeral)
qed

lemma zigzag_order_4_4_2:
  "balance (rounded_table [120985, 176033, 199471, 176033]) (arange 1 (4 + 1)) (4 - 4)
     = Some [0, 0, 0, 0]
   \<and> zigzag_script 4 (map (\<lambda>x. 1 + x) [0, 0, 0, 0]) = Inr [-2, 0, 1, -1]
   \<and> zigzag_fn (\<lambda>j. 0) 4 4 (map (\<lambda>x. 1 + x) [0, 0, 0, 0]) = Inr [-2, 0, 1, -1]"
  using zigzag_order [of 4 "[0, 0, 0, 0]" 4 "\<lambda>j. 0" "rounded_table [120985, 176033, 199471, 176033]" 1607]
    table_4_2_facts
  by simp

text \<open>
  C2. The assembled sequence should have length exactly \<open>trajectoryLength\<close>
  (\<open>LUT_1D_Cartesian.py\<close>: "Trim to match trajectory length"; \<open>cartesian1Dtrajectory.py\<close>:
  "length = trajectory_length"). For the valid configuration \<open>targetKspaceSize = 2\<close>,
  \<open>trajectoryLength = 6\<close>, \<open>sigma = 2\<close> the balancer returns \<open>[2, 3]\<close> instead of counts that
  sum to 4, and \<open>LUT_1D_Cartesian.py\<close> assembles seven samples; the array of
  \<open>generate_cartesian_1d_trajectory\<close> has six cells, whatever the counts are.
\<close>

theorem zigzag_overlong:
  "LUT_1D_Cartesian (rounded_table [176033, 199471]) [0, 3, 5] 2 6 ''gauss'' 2
     = Some (Inr ([-1, -1, -1, 0, 0, 0, 0], Some [1 / 3, 2 / 3]))
   \<and> int (length [-1, -1, -1, 0, 0, 0, 0 :: int]) \<noteq> 6
   \<and> zigzag_fn uninit 2 6 (map (\<lambda>x. 1 + x) [2, 3]) = Inr [-1, -1, -1, 0, 0, 0]
   \<and> int (length [-1, -1, -1, 0, 0, 0 :: int]) = 6"
proof -
  have "calculate_target 2 6 2 ''gauss'' = Inr (4, arange 1 3)"
    using calculate_target_gauss(1) [of 2 6 2] by simp
  then have "LUT_1D_Cartesian (rounded_table [176033, 199471]) [0, 3, 5] 2 6 ''gauss'' 2
     = Some (Inr ([-1, -1, -1, 0, 0, 0, 0], Some [1 / 3, 2 / 3]))"
    by (simp add: LUT_1D_Cartesian_def balance_2_6_2 run_eval)
  then show ?thesis using zigzag_fn_2_6 [of uninit] by simp
qed

text \<open>
  C6. Every line \<open>k\<close> should be repeated \<open>1 + r[k]\<close> times. For the valid configuration
  \<open>targetKspaceSize = 2\<close>, \<open>trajectoryLength = 6\<close>, \<open>sigma = 2\<close>, where the balancer returns
  \<open>r = [2, 3]\<close>, \<open>generate_cartesian_1d_trajectory\<close> writes line 2 into the slice \<open>traj[3:7]\<close>
  of an array of six cells: the trajectory it returns holds line 2 three times and not
  \<open>1 + r[2] = 4\<close> times, and is not the sequence of the specification.
\<close>

theorem zigzag_clipped:
  "generate_cartesian_1d_trajectory (rounded_table [176033, 199471]) uninit [0, 3, 5] 2 6 2 ''gauss''
     = Some (Inr ([-1, -1, -1, 0, 0, 0], Some [1 / 3, 2 / 3]))
   \<and> zigzag_spec 2 [2, 3] = [-1, -1, -1, 0, 0, 0, 0]
   \<and> [-1, -1, -1, 0, 0, 0] \<noteq> zigzag_spec 2 [2, 3]
   \<and> count_list [-1, -1, -1, 0, 0, 0 :: int] (2 - (2 div 2 + 1)) \<noteq> nat (1 + [2, 3] ! (2 - 1))"
proof -
  have "kspace_target 2 6 2 ''gauss'' = Inr (4, arange 1 3)"
    by (simp add: kspace_target_def must_be_pos_even_int_def py_lower_def lower_char_def)
  then have "generate_cartesian_1d_trajectory (rounded_table [176033, 199471]) uninit [0, 3, 5]
      2 6 2 ''gauss'' = Some (Inr ([-1, -1, -1, 0, 0, 0], Some [1 / 3, 2 / 3]))"
    using zigzag_fn_2_6 [of uninit]
    by (simp add: generate_cartesian_1d_trajectory_def balance_2_6_2 run_eval)
  then show ?thesis
    by (simp add: zigzag_spec_def odd_lines_def even_lines_def upt_rec eval_nat_numeral)
qed

section \<open>Claims about the filling estimate\<close>

text \<open>
  C9. For every valid configuration for which the scale-up loop ends, and every non-empty
  list of draws \<open>s\<close> in \<open>[0, trajectoryLength)\<close>: each \<open>traj[s]\<close> exists and its bucket index
  \<open>traj[s] + targetKspaceSize/2\<close> lies in \<open>[0, targetKspaceSize)\<close>, so the test of
  \<open>LUT_1D_Cartesian.py\<close> never skips a draw; the counts sum to the number of draws, and the
  histogram is the counts divided by that number, with entries that are not negative and sum
  to 1 (in exact arithmetic). The same holds for \<open>generate_cartesian_1d_trajectory\<close>, which
  has no test.
\<close>

theorem filling_buckets:
  assumes "0 < targetKspaceSize" "even targetKspaceSize"
    and "0 < trajectoryLength" "even trajectoryLength"
    and "0 < sigma" "even sigma"
    and "targetKspaceSize \<le> trajectoryLength"
    and "\<forall>n. \<forall>x\<in>set (scaled rnd (arange 1 (targetKspaceSize + 1)) n). 0 \<le> x"
    and "trajectoryLength - targetKspaceSize
           < sum_list (scaled rnd (arange 1 (targetKspaceSize + 1)) m)"
    and "\<forall>s\<in>set samples. 0 \<le> s \<and> s < trajectoryLength"
    and "samples \<noteq> []"
  shows "\<exists>traj counts h traj' counts' h'.
       LUT_1D_Cartesian rnd samples targetKspaceSize trajectoryLength ''gauss'' sigma
         = Some (Inr (traj, Some h))
     \<and> (\<forall>s\<in>set samples. \<exists>t. np_get traj s = Inr t
            \<and> 0 \<le> t + targetKspaceSize div 2 \<and> t + targetKspaceSize div 2 < targetKspaceSize)
     \<and> fill_script traj targetKspaceSize samples (replicate (nat targetKspaceSize) 0) = Inr counts
     \<and> sum_list counts = int (length samples)
     \<and> h = map (\<lambda>c. of_int c / of_int (int (length samples))) counts
     \<and> sum_list h = 1 \<and> (\<forall>x\<in>set h. 0 \<le> x)
     \<and> generate_cartesian_1d_trajectory rnd uninit samples targetKspaceSize trajectoryLength
          sigma ''gauss'' = Some (Inr (traj', Some h'))
     \<and> (\<forall>s\<in>set samples. \<exists>t. np_get traj' s = Inr t
            \<and> 0 \<le> t + targetKspaceSize div 2 \<and> t + targetKspaceSize div 2 < targetKspaceSize)
     \<and> fill_fn traj' targetKspaceSize samples (replicate (nat targetKspaceSize) 0) = Inr counts'
     \<and> sum_list counts' = int (length samples)
     \<and> h' = map (\<lambda>c. of_int c / of_int (int (length samples))) counts'
     \<and> sum_list h' = 1 \<and> (\<forall>x\<in>set h'. 0 \<le> x)"
proof -
  let ?N = targetKspaceSize and ?L = trajectoryLength
  obtain df where r: "balance rnd (arange 1 (?N + 1)) (?L - ?N) = Some df"
    "?L - ?N \<le> sum_list df"
    "zigzag_script ?N (map (\<lambda>x. 1 + x) df) = Inr (zigzag_spec ?N df)"
    "zigzag_fn uninit ?N ?L (map (\<lambda>x. 1 + x) df) = Inr (take (nat ?L) (zigzag_spec ?N df))"
    "int (length (zigzag_spec ?N df)) = ?N + sum_list df"
    "set (zigzag_spec ?N df) \<subseteq> {- (?N div 2)..?N div 2 - 1}"
    using cartesian_run [OF assms(1,2,7,8,9), of uninit] by blast
  define traj where "traj = zigzag_spec ?N df"
  define traj' where "traj' = take (nat ?L) traj"
  have long: "?L \<le> int (length traj)" using r(2,5) by (simp add: traj_def)
  have in1: "\<forall>s\<in>set samples. 0 \<le> s \<and> s < int (length traj)" using assms(10) long by auto
  have len': "int (length traj') = ?L" using long assms(3) by (simp add: traj'_def)
  have in2: "\<forall>s\<in>set samples. 0 \<le> s \<and> s < int (length traj')" using assms(10) len' by auto
  have rng1: "set traj \<subseteq> {- (?N div 2)..?N div 2 - 1}" using r(6) by (simp add: traj_def)
  have rng2: "set traj' \<subseteq> {- (?N div 2)..?N div 2 - 1}"
    using set_take_subset [of "nat ?L" traj] rng1 unfolding traj'_def by blast
  obtain counts h where s: "fill_script traj ?N samples (replicate (nat ?N) 0) = Inr counts"
    "sum_list counts = int (length samples)" "normalise counts = Some h"
    "h = map (\<lambda>c. of_int c / of_int (int (length samples))) counts"
    "sum_list h = 1" "\<forall>x\<in>set h. 0 \<le> x"
    using montecarlo_script [OF assms(1,2) in1 rng1 assms(11)] by blast
  obtain counts' h' where f: "fill_fn traj' ?N samples (replicate (nat ?N) 0) = Inr counts'"
    "sum_list counts' = int (length samples)" "normalise counts' = Some h'"
    "h' = map (\<lambda>c. of_int c / of_int (int (length samples))) counts'"
    "sum_list h' = 1" "\<forall>x\<in>set h'. 0 \<le> x"
    using montecarlo_fn [OF assms(1,2) in2 rng2 assms(11)] by blast
  have script: "LUT_1D_Cartesian rnd samples ?N ?L ''gauss'' sigma = Some (Inr (traj, Some h))"
    unfolding LUT_1D_Cartesian_def calculate_target_gauss(1) [OF assms(1-6)]
    using r(1,3) s(1,3) by (simp add: traj_def)
  have fn: "generate_cartesian_1d_trajectory rnd uninit samples ?N ?L sigma ''gauss''
      = Some (Inr (traj', Some h'))"
    unfolding generate_cartesian_1d_trajectory_def calculate_target_gauss(2) [OF assms(1-6)]
    using r(1,4) f(1,3) by (simp add: traj'_def traj_def)
  show ?thesis
    using script fn s f buckets_in_range [OF assms(1,2) in1 rng1]
      buckets_in_range [OF assms(1,2) in2 rng2]
    by (intro exI [of _ traj] exI [of _ counts] exI [of _ h]
        exI [of _ traj'] exI [of _ counts'] exI [of _ h']) simp
qed

theorem filling_buckets_witness:
  "LUT_1D_Cartesian (rounded_table [26995, 64759, 120985, 176033, 199471, 176033, 120985, 64759])
     [0, 2, 9, 3] 8 10 ''gauss'' 2
   = Some (Inr ([-4, -2, 0, 0, 2, 3, 1, 1, -1, -3], Some [1 / 4, 1 / 4, 0, 0, 1 / 2, 0, 0, 0]))
   \<and> generate_cartesian_1d_trajectory
     (rounded_table [26995, 64759, 120985, 176033, 199471, 176033, 120985, 64759])
     (\<lambda>j. 0) [0, 2, 9, 3] 8 10 2 ''gauss''
   = Some (Inr ([-4, -2, 0, 0, 2, 3, 1, 1, -1, -3], Some [1 / 4, 1 / 4, 0, 0, 1 / 2, 0, 0, 0]))
   \<and> sum_list [1 / 4, 1 / 4, 0, 0, 1 / 2, 0, 0, 0 :: rat] = 1"
proof -
  let ?w = "[26995, 64759, 120985, 176033, 199471, 176033, 120985, 64759] :: int list"
  have k: "arange 1 (8 + 1) = arange 1 9" by simp
  have draws: "\<forall>s\<in>set [0, 2, 9, 3 :: int]. 0 \<le> s \<and> s < 10" by simp
  obtain traj h traj' h' where r:
    "LUT_1D_Cartesian (rounded_table ?w) [0, 2, 9, 3] 8 10 ''gauss'' 2 = Some (Inr (traj, Some h))"
    "sum_list h = 1"
    "generate_cartesian_1d_trajectory (rounded_table ?w) (\<lambda>j. 0) [0, 2, 9, 3] 8 10 2 ''gauss''
       = Some (Inr (traj', Some h'))"
    using filling_buckets [of 8 10 2 "rounded_table ?w" 1941 "[0, 2, 9, 3]" "\<lambda>j. 0"]
      table_8_2_nonneg table_8_2_exit draws unfolding k by auto
  have "h = [1 / 4, 1 / 4, 0, 0, 1 / 2, 0, 0, 0]" using r(1) LUT_8_10_2 by simp
  then show ?thesis
    using r(2) LUT_8_10_2 generate_8_10_2 [of "''gauss''"]
    by (simp add: py_lower_def lower_char_def)
qed

section \<open>Claims about the density shape\<close>

text \<open>
  C5 (amended). \<open>LUT_1D_Cartesian.py\<close> fails for every density shape other than "gauss": with
  \<open>ValueError\<close> once the three integer checks pass, with \<open>AssertionError\<close> when one of them
  fails. \<open>generate_cartesian_1d_trajectory\<close> fails with \<open>ValueError\<close> for every density shape
  whose lower-case form is not "gauss". In both, on a valid configuration, the one array
  built before the exception is the index vector \<open>k\<close>; no repeat count, trajectory or
  histogram is computed, and nothing is returned or exported.
\<close>

theorem unsupported_shape:
  "(densityShape \<noteq> ''gauss'' \<longrightarrow>
      (\<exists>e. LUT_1D_Cartesian rnd samples N L densityShape sigma = Some (Inl e)
          \<and> (e = AssertionError \<or> e = ValueError))
      \<and> (0 < N \<and> even N \<and> 0 < L \<and> even L \<and> 0 < sigma \<and> even sigma \<longrightarrow>
            calculate_target N L sigma densityShape = Inl (ValueError, [arange 1 (N + 1)])
          \<and> LUT_1D_Cartesian rnd samples N L densityShape sigma = Some (Inl ValueError)))
   \<and> (py_lower density_shape \<noteq> ''gauss'' \<longrightarrow>
      generate_cartesian_1d_trajectory rnd uninit samples N L sigma density_shape
        = Some (Inl ValueError)
      \<and> (0 < N \<and> even N \<and> 0 < L \<and> even L \<and> 0 < sigma \<and> even sigma \<longrightarrow>
            kspace_target N L sigma density_shape = Inl (ValueError, [arange 1 (N + 1)])))"
  by (auto simp: LUT_1D_Cartesian_def calculate_target_def mustBePosEvenInt_def
      generate_cartesian_1d_trajectory_def kspace_target_def must_be_pos_even_int_def
      even_iff_mod_2_eq_zero)

text \<open>
  C5 as stated fails for \<open>generate_cartesian_1d_trajectory\<close> and the shape "GAUSS", which is
  not "gauss" and is accepted.
\<close>

theorem unsupported_shape_counterexample:
  "''GAUSS'' \<noteq> ''gauss''
   \<and> generate_cartesian_1d_trajectory
     (rounded_table [26995, 64759, 120985, 176033, 199471, 176033, 120985, 64759])
     (\<lambda>j. 0) [0, 2, 9, 3] 8 10 2 ''GAUSS''
   = Some (Inr ([-4, -2, 0, 0, 2, 3, 1, 1, -1, -3], Some [1 / 4, 1 / 4, 0, 0, 1 / 2, 0, 0, 0]))"
  using generate_8_10_2 [of "''GAUSS''" "\<lambda>j. 0"] by (simp add: py_lower_def lower_char_def)

theorem unsupported_shape_witness:
  "LUT_1D_Cartesian (rounded_table [26995, 64759, 120985, 176033, 199471, 176033, 120985, 64759])
     [0, 2, 9, 3] 8 10 ''linear'' 2 = Some (Inl ValueError)
   \<and> calculate_target 8 10 2 ''linear'' = Inl (ValueError, [[1, 2, 3, 4, 5, 6, 7, 8]])
   \<and> generate_cartesian_1d_trajectory
     (rounded_table [26995, 64759, 120985, 176033, 199471, 176033, 120985, 64759])
     (\<lambda>j. 0) [0, 2, 9, 3] 8 10 2 ''Linear'' = Some (Inl ValueError)
   \<and> kspace_target 8 10 2 ''Linear'' = Inl (ValueError, [[1, 2, 3, 4, 5, 6, 7, 8]])"
  using unsupported_shape [of "''linear''"
      "rounded_table [26995, 64759, 120985, 176033, 199471, 176033, 120985, 64759]"
      "[0, 2, 9, 3]" 8 10 2 "''Linear''" "\<lambda>j. 0"]
  by (simp add: py_lower_def lower_char_def arange_def upto.simps)

section \<open>Claims about the generators in the plane\<close>

text \<open>
  C3 (amended). For positive dimensions, when every rasterised spoke contains the centre
  cell \<open>(0, 0)\<close> (the two samples next to \<open>t = 0\<close> round to it), the spoke loop returns,
  with exactly \<open>dimy * dimz\<close> coordinates that all satisfy the elliptical support
  inequality. The spiral clean-up of a non-empty list returns a list whose length is the
  smaller of the pruned length and \<open>dimy * dimz * reps\<close>: never more than the target, equal
  to it only when enough points are left after compaction and pruning, and never more than
  the number of accumulated points.
\<close>

theorem generators_length:
  "(0 < dimy \<and> 0 < dimz \<and> (\<forall>n. (0, 0) \<in> set (raster (Suc n))) \<longrightarrow>
      (\<exists>kSpaceList spokeNr.
          spoke_loop raster order dimy dimz [] 0 = Some (kSpaceList, spokeNr)
        \<and> int (length kSpaceList) = dimy * dimz
        \<and> (\<forall>pt\<in>set kSpaceList. inside_ellipse dimy dimz pt)))
   \<and> (raw \<noteq> [] \<and> 0 \<le> dimy * dimz * reps \<longrightarrow>
      (\<exists>compacted cleaned.
          remove_repeats 100 raw = Inr compacted
        \<and> spiral_cleanup raw dimy dimz reps = Inr cleaned
        \<and> int (length cleaned)
            = min (int (length (prune_origin compacted))) (dimy * dimz * reps)
        \<and> int (length cleaned) \<le> dimy * dimz * reps
        \<and> length cleaned \<le> length raw))"
proof (intro conjI impI)
  assume a: "0 < dimy \<and> 0 < dimz \<and> (\<forall>n. (0, 0) \<in> set (raster (Suc n)))"
  then have "0 \<le> dimy * dimz" by simp
  then have "int (length ([] :: (int \<times> int) list)) \<le> dimy * dimz" by simp
  moreover have "\<forall>p\<in>set []. inside_ellipse dimy dimz p" by simp
  ultimately show "\<exists>kSpaceList spokeNr.
          spoke_loop raster order dimy dimz [] 0 = Some (kSpaceList, spokeNr)
        \<and> int (length kSpaceList) = dimy * dimz
        \<and> (\<forall>pt\<in>set kSpaceList. inside_ellipse dimy dimz pt)"
    using a by (intro spoke_loop_returns) blast+
next
  assume a: "raw \<noteq> [] \<and> 0 \<le> dimy * dimz * reps"
  then obtain compacted cleaned where r: "remove_repeats 100 raw = Inr compacted"
    "spiral_cleanup raw dimy dimz reps = Inr cleaned"
    "int (length cleaned) = min (int (length (prune_origin compacted))) (dimy * dimz * reps)"
    "length cleaned \<le> length raw"
    using spiral_cleanup_length [of raw dimy dimz reps] by blast
  have "int (length cleaned) \<le> dimy * dimz * reps" using r(3) by simp
  then show "\<exists>compacted cleaned.
          remove_repeats 100 raw = Inr compacted
        \<and> spiral_cleanup raw dimy dimz reps = Inr cleaned
        \<and> int (length cleaned)
            = min (int (length (prune_origin compacted))) (dimy * dimz * reps)
        \<and> int (length cleaned) \<le> dimy * dimz * reps
        \<and> length cleaned \<le> length raw"
    using r by blast
qed

text \<open>
  C3 as stated fails for the spiral: the script accumulates 2000 arms of 256 points, and a
  target of \<open>1024 * 1024\<close> points is out of reach of any list of 512000 points.
\<close>

theorem generators_length_counterexample:
  "spiral_cleanup (replicate 512000 (1, 1)) 1024 1024 1 = Inr [(1, 1)]
   \<and> int (length [(1, 1) :: int \<times> int]) \<noteq> 1024 * 1024 * 1"
proof -
  have "replicate 512000 (1, 1) = replicate (Suc 511999) (1 :: int, 1 :: int)" by simp
  then have "remove_repeats 100 (replicate 512000 (1 :: int, 1 :: int)) = Inr [(1, 1)]"
    using remove_repeats_replicate [of 99 511999 "(1 :: int, 1 :: int)"] by simp
  then show ?thesis by (simp add: spiral_cleanup_def plane_eval)
qed

theorem generators_length_witness:
  "spoke_loop raster_3x3 1 3 3 [] 0
     = Some ([(-1, 0), (0, 0), (1, 0), (1, 1), (0, 0), (-1, -1), (-1, -1), (0, 0), (1, 1)], 3)
   \<and> spiral_cleanup [(0, 0), (0, 0), (1, 0), (0, 0), (0, 1), (1, 1), (1, 1)] 1 2 1
     = Inr [(1, 0), (0, 0)]"
proof -
  have centre: "\<forall>n. (0, 0) \<in> set (raster_3x3 (Suc n))" by (simp add: raster_3x3_def)
  have "spiral_cleanup [(0, 0), (0, 0), (1, 0), (0, 0), (0, 1), (1, 1), (1, 1)] 1 2 1
      = Inr [(1, 0), (0, 0)]"
    by (simp add: spiral_cleanup_def eval_nat_numeral plane_eval)
  then show ?thesis
    using generators_length [where dimy = 3 and dimz = 3 and raster = raster_3x3 and order = 1
        and raw = "[(0, 0), (0, 0), (1, 0), (0, 0), (0, 1), (1, 1), (1, 1)]" and reps = 1]
      generators_length [where dimy = 1 and dimz = 2 and raster = raster_3x3 and order = 1
        and raw = "[(0, 0), (0, 0), (1, 0), (0, 0), (0, 1), (1, 1), (1, 1)]" and reps = 1]
      centre spoke_loop_3x3
    by simp
qed

section \<open>Claims about the coverage analysis\<close>

text \<open>
  C4 (amended). Whenever the analysis returns (at least one sample and at least one grid
  cell in the ellipse), the number of unique coordinates is at most the number of samples.
  The coverage fraction, unique count over the number of grid cells that satisfy the
  elliptical support inequality, is at most 1 (\<open>coveredFraction\<close> at most 100) whenever every
  sample is a cell of the grid and satisfies the inequality. The grid of the radial script is
  \<open>[-dim//2, dim//2)\<close>, that of the spiral script \<open>[-dim//2, ceil(dim/2))\<close>.
\<close>

theorem coverage_bounds:
  "(coverage_radial dimy dimz kSpaceList = Inr c \<longrightarrow>
      numUnique c \<le> numTotal c
    \<and> numUnique c = card (set kSpaceList) \<and> numTotal c = length kSpaceList
    \<and> coveredFraction c = 100 * (of_nat (numUnique c) / of_nat (numEllipticalPoints c))
    \<and> ((\<forall>(y, z)\<in>set kSpaceList. (- dimy) div 2 \<le> y \<and> y < dimy div 2
            \<and> (- dimz) div 2 \<le> z \<and> z < dimz div 2 \<and> inside_ellipse dimy dimz (y, z))
        \<longrightarrow> (of_nat (numUnique c) / of_nat (numEllipticalPoints c) :: rat) \<le> 1
          \<and> coveredFraction c \<le> 100))
   \<and> (coverage_spiral dimy dimz kSpaceList = Inr c' \<longrightarrow>
      numUnique c' \<le> numTotal c'
    \<and> numUnique c' = card (set kSpaceList) \<and> numTotal c' = length kSpaceList
    \<and> coveredFraction c' = 100 * (of_nat (numUnique c') / of_nat (numEllipticalPoints c'))
    \<and> ((\<forall>(y, z)\<in>set kSpaceList. (- dimy) div 2 \<le> y \<and> y < - ((- dimy) div 2)
            \<and> (- dimz) div 2 \<le> z \<and> z < - ((- dimz) div 2) \<and> inside_ellipse dimy dimz (y, z))
        \<longrightarrow> (of_nat (numUnique c') / of_nat (numEllipticalPoints c') :: rat) \<le> 1
          \<and> coveredFraction c' \<le> 100))"
proof (intro conjI impI)
  assume r: "coverage_radial dimy dimz kSpaceList = Inr c"
  let ?ys = "arange ((- dimy) div 2) (dimy div 2)" and ?zs = "arange ((- dimz) div 2) (dimz div 2)"
  have a: "analyse ?ys ?zs dimy dimz kSpaceList = Inr c" using r by (simp add: coverage_radial_def)
  show "numUnique c \<le> numTotal c" by (rule analyse_spec(1) [OF a])
  show "numUnique c = card (set kSpaceList)" "numTotal c = length kSpaceList"
    "coveredFraction c = 100 * (of_nat (numUnique c) / of_nat (numEllipticalPoints c))"
    by (rule analyse_Inr [OF a])+
  assume "\<forall>(y, z)\<in>set kSpaceList. (- dimy) div 2 \<le> y \<and> y < dimy div 2
      \<and> (- dimz) div 2 \<le> z \<and> z < dimz div 2 \<and> inside_ellipse dimy dimz (y, z)"
  then have "\<forall>p\<in>set kSpaceList. p \<in> set (List.product ?ys ?zs) \<and> inside_ellipse dimy dimz p"
    by (rule grid_cells)
  then show "(of_nat (numUnique c) / of_nat (numEllipticalPoints c) :: rat) \<le> 1"
    "coveredFraction c \<le> 100"
    using analyse_spec(2) [OF a] by simp_all
next
  assume r: "coverage_spiral dimy dimz kSpaceList = Inr c'"
  let ?ys = "arange ((- dimy) div 2) (- ((- dimy) div 2))"
    and ?zs = "arange ((- dimz) div 2) (- ((- dimz) div 2))"
  have a: "analyse ?ys ?zs dimy dimz kSpaceList = Inr c'" using r by (simp add: coverage_spiral_def)
  show "numUnique c' \<le> numTotal c'" by (rule analyse_spec(1) [OF a])
  show "numUnique c' = card (set kSpaceList)" "numTotal c' = length kSpaceList"
    "coveredFraction c' = 100 * (of_nat (numUnique c') / of_nat (numEllipticalPoints c'))"
    by (rule analyse_Inr [OF a])+
  assume "\<forall>(y, z)\<in>set kSpaceList. (- dimy) div 2 \<le> y \<and> y < - ((- dimy) div 2)
      \<and> (- dimz) div 2 \<le> z \<and> z < - ((- dimz) div 2) \<and> inside_ellipse dimy dimz (y, z)"
  then have "\<forall>p\<in>set kSpaceList. p \<in> set (List.product ?ys ?zs) \<and> inside_ellipse dimy dimz p"
    by (rule grid_cells)
  then show "(of_nat (numUnique c') / of_nat (numEllipticalPoints c') :: rat) \<le> 1"
    "coveredFraction c' \<le> 100"
    using analyse_spec(2) [OF a] by simp_all
qed

text \<open>
  C4 as stated fails for the radial script with \<open>dimy = dimz = 3\<close>: the nine samples visit
  five cells of the ellipse, the grid \<open>{-2, -1, 0}\<close> holds four of them, and the reported
  coverage is 125 percent.
\<close>

theorem coverage_bounds_counterexample:
  "exLUT_3D_radialTrajectory raster_3x3 1 3 3
     = Some (Inr ([(-1, 0), (0, 0), (1, 0), (1, 1), (0, 0), (-1, -1), (-1, -1), (0, 0), (1, 1)], 3,
          \<lparr>numUnique = 5, numTotal = 9, avgSamplesPerPoint = 9 / 5, numEllipticalPoints = 4,
           coveredFraction = 125\<rparr>))
   \<and> \<not> (125 :: rat) / 100 \<le> 1"
  by (simp add: exLUT_3D_radialTrajectory_def spoke_loop_3x3 coverage_eval)

theorem coverage_bounds_witness:
  "coverage_radial 3 3 [(-1, 0), (0, 0), (-1, -1), (0, 0)]
     = Inr \<lparr>numUnique = 3, numTotal = 4, avgSamplesPerPoint = 4 / 3, numEllipticalPoints = 4,
         coveredFraction = 75\<rparr>
   \<and> coverage_spiral 3 3 [(-1, 0), (0, 0), (-1, -1), (0, 0)]
     = Inr \<lparr>numUnique = 3, numTotal = 4, avgSamplesPerPoint = 4 / 3, numEllipticalPoints = 9,
         coveredFraction = 100 / 3\<rparr>
   \<and> (75 :: rat) \<le> 100 \<and> (100 / 3 :: rat) \<le> 100"
proof -
  let ?ks = "[(-1, 0), (0, 0), (-1, -1), (0, 0)] :: (int \<times> int) list"
  have r: "coverage_radial 3 3 ?ks
     = Inr \<lparr>numUnique = 3, numTotal = 4, avgSamplesPerPoint = 4 / 3, numEllipticalPoints = 4,
         coveredFraction = 75\<rparr>"
    by (simp add: coverage_eval)
  have s: "coverage_spiral 3 3 ?ks
     = Inr \<lparr>numUnique = 3, numTotal = 4, avgSamplesPerPoint = 4 / 3, numEllipticalPoints = 9,
         coveredFraction = 100 / 3\<rparr>"
    by (simp add: coverage_eval)
  show ?thesis
    using r s coverage_bounds [where dimy = 3 and dimz = 3 and kSpaceList = ?ks
        and c = "\<lparr>numUnique = 3, numTotal = 4, avgSamplesPerPoint = 4 / 3,
          numEllipticalPoints = 4, coveredFraction = 75\<rparr>"
        and c' = "\<lparr>numUnique = 3, numTotal = 4, avgSamplesPerPoint = 4 / 3,
          numEllipticalPoints = 9, coveredFraction = 100 / 3\<rparr>"]
    by (simp add: inside_ellipse_def power2_eq_square)
qed

section \<open>Claims about the origin pruning\<close>



section \<open>Claims about the density\<close>

text \<open>
  C7 (amended). For every positive \<open>sigma\<close> and positive \<open>targetKspaceSize = N\<close> the gauss
  weight vector has \<open>N\<close> entries, none of them negative, and is symmetric about the centre
  index \<open>c = N/2 + 1\<close>: the weights at \<open>c - j\<close> and \<open>c + j\<close> are the same double whenever both
  indices lie in \<open>1..N\<close> (the index enters only through the integer \<open>(k - c)\<^sup>2\<close>). The weight
  at index \<open>k\<close> is strictly positive when \<open>(k - c)\<^sup>2 \<le> 1200 * sigma\<^sup>2\<close> (up to 34 \<open>sigma\<close> from
  the centre) and \<open>sigma \<le> 2 ^ 32\<close>, and it is exactly zero when
  \<open>2152 * sigma\<^sup>2 \<le> (k - c)\<^sup>2\<close> (from 47 \<open>sigma\<close> on), where the exponential underflows.
\<close>

theorem density_symmetric:
  assumes "0 < sigma" "0 < N"
  shows "length (density N sigma) = nat N
     \<and> (\<forall>w\<in>set (density N sigma). 0 \<le> w)
     \<and> (\<forall>j. 1 \<le> N div 2 + 1 - j \<and> N div 2 + 1 - j \<le> N
             \<and> 1 \<le> N div 2 + 1 + j \<and> N div 2 + 1 + j \<le> N \<longrightarrow>
           density N sigma ! nat (N div 2 + 1 - j - 1) = density N sigma ! nat (N div 2 + 1 + j - 1))
     \<and> (\<forall>k. 1 \<le> k \<and> k \<le> N \<and> sigma \<le> 2 ^ 32 \<and> (k - (N div 2 + 1))\<^sup>2 \<le> 1200 * sigma\<^sup>2 \<longrightarrow>
           0 < density N sigma ! nat (k - 1))
     \<and> (\<forall>k. 1 \<le> k \<and> k \<le> N \<and> 2152 * sigma\<^sup>2 \<le> (k - (N div 2 + 1))\<^sup>2 \<longrightarrow>
           density N sigma ! nat (k - 1) = 0)"
proof (intro conjI allI impI ballI)
  show "length (density N sigma) = nat N" using assms(2) by (simp add: density_length)
next
  fix w assume "w \<in> set (density N sigma)"
  then show "0 \<le> w" using gauss_nonneg [OF assms(1)] by (auto simp: density_def)
next
  fix j assume a: "1 \<le> N div 2 + 1 - j \<and> N div 2 + 1 - j \<le> N
      \<and> 1 \<le> N div 2 + 1 + j \<and> N div 2 + 1 + j \<le> N"
  show "density N sigma ! nat (N div 2 + 1 - j - 1) = density N sigma ! nat (N div 2 + 1 + j - 1)"
    using density_nth [of "N div 2 + 1 - j" N sigma] density_nth [of "N div 2 + 1 + j" N sigma]
      a gauss_symmetric [of "N div 2 + 1" sigma j]
    by simp
next
  fix k assume a: "1 \<le> k \<and> k \<le> N \<and> sigma \<le> 2 ^ 32 \<and> (k - (N div 2 + 1))\<^sup>2 \<le> 1200 * sigma\<^sup>2"
  then have "0 < gauss (N div 2 + 1) sigma k" using assms(1) by (intro gauss_pos) simp_all
  then show "0 < density N sigma ! nat (k - 1)" using a density_nth [of k N sigma] by simp
next
  fix k assume a: "1 \<le> k \<and> k \<le> N \<and> 2152 * sigma\<^sup>2 \<le> (k - (N div 2 + 1))\<^sup>2"
  then have "gauss (N div 2 + 1) sigma k = 0" using assms(1) by (intro gauss_zero) simp_all
  then show "density N sigma ! nat (k - 1) = 0" using a density_nth [of k N sigma] by simp
qed

theorem density_symmetric_witness:
  "0 < (2 :: int) \<and> length (density 8 2) = 8 \<and> 0 < density 8 2 ! 0
   \<and> density 8 2 ! 3 = density 8 2 ! 5 \<and> density 192 2 ! 191 = 0"
proof -
  have r: "length (density 8 2) = nat 8"
    "\<forall>j. 1 \<le> 8 div 2 + 1 - j \<and> 8 div 2 + 1 - j \<le> 8
        \<and> 1 \<le> 8 div 2 + 1 + j \<and> 8 div 2 + 1 + j \<le> 8 \<longrightarrow>
       density 8 2 ! nat (8 div 2 + 1 - j - 1) = density 8 2 ! nat (8 div 2 + 1 + j - 1)"
    "\<forall>k. 1 \<le> k \<and> k \<le> 8 \<and> (2 :: int) \<le> 2 ^ 32 \<and> (k - (8 div 2 + 1))\<^sup>2 \<le> 1200 * 2\<^sup>2 \<longrightarrow>
       0 < density 8 2 ! nat (k - 1)"
    using density_symmetric [of 2 8] by simp_all
  have z: "\<forall>k. 1 \<le> k \<and> k \<le> 192 \<and> 2152 * 2\<^sup>2 \<le> (k - (192 div 2 + 1))\<^sup>2 \<longrightarrow>
       density 192 2 ! nat (k - 1) = 0"
    using density_symmetric [of 2 192] by simp
  have "0 < density 8 2 ! 0" using r(3) [rule_format, of 1] by simp
  moreover have "density 8 2 ! 3 = density 8 2 ! 5" using r(2) [rule_format, of 1] by simp
  moreover have "density 192 2 ! 191 = 0" using z [rule_format, of 192] by simp
  ultimately show ?thesis using r(1) by simp
qed

text \<open>
  C7 as stated fails for \<open>targetKspaceSize = 192\<close>, \<open>sigma = 2\<close>: at index 1 the exponent is
  \<open>-(1 - 97)\<^sup>2 / 8 = -1152\<close>, the exponential underflows, and the weight is exactly zero, not
  strictly positive.
\<close>

theorem density_positive_counterexample:
  "mustBePosEvenInt 192 = Inr () \<and> mustBePosEvenInt 2 = Inr ()
   \<and> density 192 2 ! 0 = 0 \<and> \<not> 0 < density 192 2 ! 0"
proof -
  have "density 192 2 ! nat (1 - 1) = gauss (192 div 2 + 1) 2 1"
    by (rule density_nth) simp_all
  then have "density 192 2 ! 0 = 0" using gauss_underflow by simp
  then show ?thesis by (simp add: mustBePosEvenInt_def)
qed


end
